theory Spec2Isabelle
  imports Main
begin

section \<open>SmartLocker kiosk: credential store\<close>

text \<open>
  The kiosk keeps two SQLite tables in one database file (Front-locker.py, init_db):
  \<^verbatim>\<open>admins(id, username UNIQUE, password_hash)\<close> and
  \<^verbatim>\<open>fingerprints(finger_id PRIMARY KEY, username)\<close>.
  A table is a list of rows in insertion order; a table that was never created is
  \<open>None\<close>, and a statement on it raises sqlite3.OperationalError. The autoincrement
  column \<open>id\<close> of admins is never read by the program and is left out of the rows.
\<close>

datatype exn = OperationalError | IntegrityError | OverflowError | TypeError
  | AttributeError | DeviceFault

type_synonym bytes = "nat list"

record database =
  admins :: "(string \<times> bytes) list option"
  fingerprints :: "(int \<times> string) list option"

text \<open>
  \<^verbatim>\<open>str.encode("utf-8")\<close> on text whose code points are below 256 (the range of an
  Isabelle character): one byte below 128, two bytes from there on.
\<close>

definition encode_utf8 :: "string \<Rightarrow> bytes" where
  "encode_utf8 s =
     concat (map (\<lambda>c. let n = (of_char c :: nat)
                      in if n < 128 then [n] else [192 + n div 64, 128 + n mod 64]) s)"

text \<open>
  The bcrypt package is not part of the repository: its two functions are parameters.
  \<open>checkpw\<close> answers \<open>None\<close> where the library raises (a malformed stored hash).
\<close>

record bcrypt =
  hashpw :: "bytes \<Rightarrow> bytes \<Rightarrow> bytes"
  checkpw :: "bytes \<Rightarrow> bytes \<Rightarrow> bool option"

definition create_table_if_not_exists :: "'r list option \<Rightarrow> 'r list option" where
  "create_table_if_not_exists t = (case t of None \<Rightarrow> Some [] | Some rows \<Rightarrow> Some rows)"

text \<open>INSERT INTO admins: the UNIQUE constraint on username rejects a second row.\<close>

definition insert_admin ::
  "string \<Rightarrow> bytes \<Rightarrow> (string \<times> bytes) list \<Rightarrow> exn + (string \<times> bytes) list" where
  "insert_admin username hashed rows =
     (if username \<in> fst ` set rows then Inl IntegrityError
      else Inr (rows @ [(username, hashed)]))"

text \<open>
  init_db: both tables are created when absent; when admins has no row, the default
  administrator admin / admin123 is inserted with a freshly salted hash (\<open>salt\<close> is the
  value of \<^verbatim>\<open>bcrypt.gensalt()\<close>). A failing insert is caught and only printed.
\<close>

definition init_db :: "bcrypt \<Rightarrow> bytes \<Rightarrow> database \<Rightarrow> database" where
  "init_db bc salt db =
     (let rows = (case create_table_if_not_exists (admins db) of
                    None \<Rightarrow> [] | Some rs \<Rightarrow> rs);
          db1 = db\<lparr>admins := Some rows,
                   fingerprints := create_table_if_not_exists (fingerprints db)\<rparr>
      in if length rows = 0
         then (let default_user = ''admin'';
                   default_pw = encode_utf8 ''admin123'';
                   hashed = hashpw bc default_pw salt
               in case insert_admin default_user hashed rows of
                    Inl e \<Rightarrow> db1
                  | Inr rows' \<Rightarrow> db1\<lparr>admins := Some rows'\<rparr>)
         else db1)"

text \<open>
  check_admin_login: the SELECT is outside the try block, so a missing table raises;
  an exception of \<^verbatim>\<open>bcrypt.checkpw\<close> is caught and gives False.
\<close>

definition check_admin_login :: "bcrypt \<Rightarrow> string \<Rightarrow> string \<Rightarrow> database \<Rightarrow> exn + bool" where
  "check_admin_login bc username password db =
     (case admins db of
        None \<Rightarrow> Inl OperationalError
      | Some rows \<Rightarrow>
          (case map_of rows username of
             None \<Rightarrow> Inr False
           | Some stored \<Rightarrow>
               (case checkpw bc (encode_utf8 password) stored of
                  None \<Rightarrow> Inr False
                | Some b \<Rightarrow> Inr b)))"

text \<open>
  An SQLite INTEGER is a signed 64-bit number. The statement is prepared first (a
  missing table raises OperationalError), then its parameters are bound: sqlite3 raises
  OverflowError for a Python int outside this range.
\<close>

definition sqlite_integer :: "int \<Rightarrow> bool" where
  "sqlite_integer n \<longleftrightarrow> - (2 ^ 63) \<le> n \<and> n < 2 ^ 63"

text \<open>
  save_finger_map: INSERT OR REPLACE deletes the row that holds the same primary key,
  then inserts the new row.
\<close>

definition save_finger_map :: "int \<Rightarrow> string \<Rightarrow> database \<Rightarrow> exn + database" where
  "save_finger_map finger_id username db =
     (case fingerprints db of
        None \<Rightarrow> Inl OperationalError
      | Some rows \<Rightarrow>
          if \<not> sqlite_integer finger_id then Inl OverflowError
          else Inr (db\<lparr>fingerprints :=
                   Some (filter (\<lambda>r. fst r \<noteq> finger_id) rows @ [(finger_id, username)])\<rparr>))"

definition get_user_by_finger :: "int \<Rightarrow> database \<Rightarrow> exn + string" where
  "get_user_by_finger finger_id db =
     (case fingerprints db of
        None \<Rightarrow> Inl OperationalError
      | Some rows \<Rightarrow>
          if \<not> sqlite_integer finger_id then Inl OverflowError
          else (case map_of rows finger_id of
             None \<Rightarrow> Inr ''Desconhecido''
           | Some username \<Rightarrow> Inr username))"

text \<open>The identities stored for a slot, in row order.\<close>

definition identities_of :: "int \<Rightarrow> database \<Rightarrow> string list" where
  "identities_of finger_id db =
     (case fingerprints db of
        None \<Rightarrow> []
      | Some rows \<Rightarrow> map snd (filter (\<lambda>r. fst r = finger_id) rows))"

text \<open>A database file that sqlite3.connect has just created: no table yet.\<close>

definition new_file :: database where
  "new_file = \<lparr>admins = None, fingerprints = None\<rparr>"

text \<open>A stand-in for bcrypt used to run the definitions: the hash is salt then password.\<close>

definition toy_bcrypt :: bcrypt where
  "toy_bcrypt = \<lparr>hashpw = (\<lambda>pw salt. salt @ pw),
                  checkpw = (\<lambda>pw stored. Some (drop 2 stored = pw))\<rparr>"

section \<open>Fingerprint service (finger_service.py)\<close>

text \<open>
  The sensor is driven through the adafruit_fingerprint library, which is not part of
  the repository. The device is a parameter: \<open>device fs k op\<close> is what the library
  call \<open>op\<close> gives when it is the k-th call made on the sensor, either a status code
  or an exception, and \<open>found fs k\<close> is the slot a search at call k reports in the
  attribute \<^verbatim>\<open>finger_id\<close>. \<open>trace\<close> lists the calls made so far, \<open>console\<close> the lines
  the service has printed.
\<close>

datatype sensor_op = Get_image | Image_2_tz int | Finger_search | Load_model int
  | Create_model | Store_model int | Delete_model int

datatype reply = Status int | Raises

datatype message = Msg_place_finger int | Msg_image1 | Msg_remove | Msg_place_again
  | Msg_image2 | Msg_no_match | Msg_flash_error | Msg_saved int

text \<open>The two status codes of the library that the service compares with.\<close>

definition OK :: int where
  "OK = 0"

definition NOFINGER :: int where
  "NOFINGER = 2"

record service =
  available :: bool
  device :: "nat \<Rightarrow> sensor_op \<Rightarrow> reply"
  found :: "nat \<Rightarrow> int"
  trace :: "sensor_op list"
  finger_id :: int
  console :: "message list"

definition sensor_call :: "sensor_op \<Rightarrow> service \<Rightarrow> reply \<times> service" where
  "sensor_call op fs = (device fs (length (trace fs)) op, fs\<lparr>trace := trace fs @ [op]\<rparr>)"

text \<open>The library's finger_search stores the reported slot in \<^verbatim>\<open>finger_id\<close>.\<close>

definition finger_search :: "service \<Rightarrow> reply \<times> service" where
  "finger_search fs =
     (case sensor_call Finger_search fs of
        (Raises, fs') \<Rightarrow> (Raises, fs')
      | (Status c, fs') \<Rightarrow> (Status c, fs'\<lparr>finger_id := found fs (length (trace fs))\<rparr>))"

definition say :: "message \<Rightarrow> service \<Rightarrow> service" where
  "say m fs = fs\<lparr>console := console fs @ [m]\<rparr>"

text \<open>
  find_empty_slot: \<^verbatim>\<open>for i in range(1, 128)\<close>, returning the first i whose load_model
  is not OK, and None after the loop.
\<close>

fun scan_slots :: "int list \<Rightarrow> service \<Rightarrow> (exn + int option) \<times> service" where
  "scan_slots [] fs = (Inr None, fs)"
| "scan_slots (i # rest) fs =
     (case sensor_call (Load_model i) fs of
        (Raises, fs') \<Rightarrow> (Inl DeviceFault, fs')
      | (Status c, fs') \<Rightarrow> if c \<noteq> OK then (Inr (Some i), fs') else scan_slots rest fs')"

definition find_empty_slot :: "service \<Rightarrow> (exn + int option) \<times> service" where
  "find_empty_slot fs =
     (if \<not> available fs then (Inr None, fs) else scan_slots [1..127] fs)"

text \<open>
  The three waiting loops of enroll_finger,
  \<^verbatim>\<open>while self.sensor.get_image() != target: pass\<close>, with target OK or NOFINGER.
  The loop has no bound: a run that never leaves it is the value \<open>None\<close>.
\<close>

partial_function (option) await_image ::
  "int \<Rightarrow> service \<Rightarrow> ((exn + unit) \<times> service) option" where
  "await_image target fs =
     (case sensor_call Get_image fs of
        (Raises, fs') \<Rightarrow> Some (Inl DeviceFault, fs')
      | (Status c, fs') \<Rightarrow>
          if c \<noteq> target then await_image target fs' else Some (Inr (), fs'))"

declare await_image.simps [code]

text \<open>enroll_finger; the one-second sleep before the removal loop has no effect here.\<close>

definition enroll_finger :: "int \<Rightarrow> service \<Rightarrow> ((exn + bool) \<times> service) option" where
  "enroll_finger location_id fs =
     (if \<not> available fs then Some (Inr False, fs)
      else case await_image OK (say (Msg_place_finger location_id) fs) of
        None \<Rightarrow> None
      | Some (Inl e, fs1) \<Rightarrow> Some (Inl e, fs1)
      | Some (Inr u, fs1) \<Rightarrow>
         (case sensor_call (Image_2_tz 1) (say Msg_image1 fs1) of
            (Raises, fs2) \<Rightarrow> Some (Inl DeviceFault, fs2)
          | (Status c2, fs2) \<Rightarrow>
             if c2 \<noteq> OK then Some (Inr False, fs2)
             else (case await_image NOFINGER (say Msg_remove fs2) of
               None \<Rightarrow> None
             | Some (Inl e, fs3) \<Rightarrow> Some (Inl e, fs3)
             | Some (Inr u, fs3) \<Rightarrow>
                (case await_image OK (say Msg_place_again fs3) of
                   None \<Rightarrow> None
                 | Some (Inl e, fs4) \<Rightarrow> Some (Inl e, fs4)
                 | Some (Inr u, fs4) \<Rightarrow>
                    (case sensor_call (Image_2_tz 2) (say Msg_image2 fs4) of
                       (Raises, fs5) \<Rightarrow> Some (Inl DeviceFault, fs5)
                     | (Status c5, fs5) \<Rightarrow>
                        if c5 \<noteq> OK then Some (Inr False, fs5)
                        else (case sensor_call Create_model fs5 of
                           (Raises, fs6) \<Rightarrow> Some (Inl DeviceFault, fs6)
                         | (Status c6, fs6) \<Rightarrow>
                            if c6 \<noteq> OK then Some (Inr False, say Msg_no_match fs6)
                            else (case sensor_call (Store_model location_id) fs6 of
                               (Raises, fs7) \<Rightarrow> Some (Inl DeviceFault, fs7)
                             | (Status c7, fs7) \<Rightarrow>
                                if c7 \<noteq> OK
                                then Some (Inr False, say Msg_flash_error fs7)
                                else Some (Inr True, say (Msg_saved location_id) fs7))))))))"

text \<open>
  The parts of enroll_finger from the second conversion on, from the wait for the second
  capture on and from the wait for the removal on; \<open>converted\<close> is the service after
  the first conversion.
\<close>

definition finish_enroll :: "int \<Rightarrow> service \<Rightarrow> ((exn + bool) \<times> service) option" where
  "finish_enroll location_id fs4 =
     (case sensor_call (Image_2_tz 2) (say Msg_image2 fs4) of
        (Raises, fs5) \<Rightarrow> Some (Inl DeviceFault, fs5)
      | (Status c5, fs5) \<Rightarrow>
         if c5 \<noteq> OK then Some (Inr False, fs5)
         else (case sensor_call Create_model fs5 of
            (Raises, fs6) \<Rightarrow> Some (Inl DeviceFault, fs6)
          | (Status c6, fs6) \<Rightarrow>
             if c6 \<noteq> OK then Some (Inr False, say Msg_no_match fs6)
             else (case sensor_call (Store_model location_id) fs6 of
                (Raises, fs7) \<Rightarrow> Some (Inl DeviceFault, fs7)
              | (Status c7, fs7) \<Rightarrow>
                 if c7 \<noteq> OK
                 then Some (Inr False, say Msg_flash_error fs7)
                 else Some (Inr True, say (Msg_saved location_id) fs7))))"

definition await_second :: "int \<Rightarrow> service \<Rightarrow> ((exn + bool) \<times> service) option" where
  "await_second location_id fs3 =
     (case await_image OK (say Msg_place_again fs3) of
        None \<Rightarrow> None
      | Some (Inl e, fs4) \<Rightarrow> Some (Inl e, fs4)
      | Some (Inr u, fs4) \<Rightarrow> finish_enroll location_id fs4)"

definition await_removal :: "int \<Rightarrow> service \<Rightarrow> ((exn + bool) \<times> service) option" where
  "await_removal location_id fs2 =
     (case await_image NOFINGER (say Msg_remove fs2) of
        None \<Rightarrow> None
      | Some (Inl e, fs3) \<Rightarrow> Some (Inl e, fs3)
      | Some (Inr u, fs3) \<Rightarrow> await_second location_id fs3)"

definition converted :: "service \<Rightarrow> service" where
  "converted fs1 = snd (sensor_call (Image_2_tz 1) (say Msg_image1 fs1))"

definition check_finger :: "service \<Rightarrow> (exn + int option) \<times> service" where
  "check_finger fs =
     (if \<not> available fs then (Inr None, fs)
      else case sensor_call Get_image fs of
        (Raises, fs1) \<Rightarrow> (Inl DeviceFault, fs1)
      | (Status c1, fs1) \<Rightarrow>
         if c1 \<noteq> OK then (Inr None, fs1)
         else (case sensor_call (Image_2_tz 1) fs1 of
            (Raises, fs2) \<Rightarrow> (Inl DeviceFault, fs2)
          | (Status c2, fs2) \<Rightarrow>
             if c2 \<noteq> OK then (Inr None, fs2)
             else (case finger_search fs2 of
                (Raises, fs3) \<Rightarrow> (Inl DeviceFault, fs3)
              | (Status c3, fs3) \<Rightarrow>
                 if c3 \<noteq> OK then (Inr None, fs3)
                 else (Inr (Some (finger_id fs3)), fs3))))"

text \<open>m consecutive calls of check_finger, with their results in order.\<close>

fun check_finger_times :: "nat \<Rightarrow> service \<Rightarrow> (exn + int option) list \<times> service" where
  "check_finger_times 0 fs = ([], fs)"
| "check_finger_times (Suc m) fs =
     (case check_finger fs of
        (r, fs') \<Rightarrow> (case check_finger_times m fs' of (rs, fs'') \<Rightarrow> (r # rs, fs'')))"

text \<open>
  Calling the method with keyword arguments. A Python function without defaults accepts
  a call when the positional arguments do not outnumber its parameters and the keywords
  name exactly the remaining parameters; any other call raises TypeError before the body
  runs. enroll_finger has the parameters self and location_id, and the kiosk calls it
  on the service with one positional argument.
\<close>

definition binds :: "string list \<Rightarrow> nat \<Rightarrow> string list \<Rightarrow> bool" where
  "binds params npos keywords \<longleftrightarrow>
     npos \<le> length params \<and> set keywords = set (drop npos params)"

definition enroll_finger_params :: "string list" where
  "enroll_finger_params = [''self'', ''location_id'']"

definition call_enroll_finger ::
  "int \<Rightarrow> string list \<Rightarrow> service \<Rightarrow> ((exn + bool) \<times> service) option" where
  "call_enroll_finger slot keywords fs =
     (if binds enroll_finger_params 2 keywords then enroll_finger slot fs
      else Some (Inl TypeError, fs))"

section \<open>Kiosk application (Front-locker.py)\<close>

text \<open>
  The state the kiosk's threads share: the flags of KioskApp, the fingerprint service
  (None until the background initialisation has stored it), the text of the name
  field, the database file, and the solenoid pin. \<open>gpio_raises k\<close> says whether the k-th
  call of GPIO.output raises; \<open>pin_log\<close> lists the levels written to the pin. \<open>events\<close>
  lists the dialogs, label updates and printed exceptions, in order.
\<close>

datatype level = HIGH | LOW

datatype event = Warn_login_needed | Err_biometrics_off | Warn_name_missing
  | Err_sensor_full | Info_enrolled string int | Label_enrolled string
  | Err_enroll_failed | Label_enroll_error | Label_digital string int
  | Err_gpio | Printed exn

record kiosk =
  running :: bool
  admin_authenticated :: bool
  biometrics_ready :: bool
  is_enrolling_finger :: bool
  finger_service :: "service option"
  name_entry :: string
  db_file :: database
  gpio_available :: bool
  gpio_raises :: "nat \<Rightarrow> bool"
  gpio_calls :: nat
  pin_log :: "level list"
  events :: "event list"

definition emit :: "event list \<Rightarrow> kiosk \<Rightarrow> kiosk" where
  "emit es k = k\<lparr>events := events k @ es\<rparr>"

text \<open>GPIO.output: the boolean says whether the call returned (True) or raised.\<close>

definition gpio_output :: "level \<Rightarrow> kiosk \<Rightarrow> bool \<times> kiosk" where
  "gpio_output v k =
     (if gpio_raises k (gpio_calls k)
      then (False, k\<lparr>gpio_calls := gpio_calls k + 1\<rparr>)
      else (True, k\<lparr>gpio_calls := gpio_calls k + 1, pin_log := pin_log k @ [v]\<rparr>))"

text \<open>
  open_locker: HIGH, two seconds, LOW, with one handler around the three statements;
  without GPIO only a line is printed. The function reads no state of the kiosk.
\<close>

definition open_locker :: "kiosk \<Rightarrow> kiosk" where
  "open_locker k =
     (if gpio_available k
      then (case gpio_output HIGH k of
              (False, k1) \<Rightarrow> emit [Err_gpio] k1
            | (True, k1) \<Rightarrow>
                (case gpio_output LOW k1 of
                   (False, k2) \<Rightarrow> emit [Err_gpio] k2
                 | (True, k2) \<Rightarrow> k2))
      else k)"

text \<open>
  The three places that grant access (a fingerprint match in finger_listen_loop, a face
  match in recognize_once, the manual button in open_locker_manual) each start
  \<^verbatim>\<open>threading.Thread(target=self.open_locker)\<close>: a request is a new thread that runs
  open_locker, whatever its source. The thread has two steps, the HIGH write and,
  two seconds later, the LOW write; other threads may run in between.
\<close>

datatype source = Fingerprint | Face | Manual

datatype locker_pc = L_assert | L_release | L_done

definition locker_step :: "locker_pc \<Rightarrow> kiosk \<Rightarrow> locker_pc \<times> kiosk" where
  "locker_step pc k =
     (case pc of
        L_assert \<Rightarrow>
          if gpio_available k
          then (case gpio_output HIGH k of
                  (False, k1) \<Rightarrow> (L_done, emit [Err_gpio] k1)
                | (True, k1) \<Rightarrow> (L_release, k1))
          else (L_release, k)
      | L_release \<Rightarrow>
          if gpio_available k
          then (case gpio_output LOW k of
                  (False, k2) \<Rightarrow> (L_done, emit [Err_gpio] k2)
                | (True, k2) \<Rightarrow> (L_done, k2))
          else (L_done, k)
      | L_done \<Rightarrow> (L_done, k))"

text \<open>
  The request threads with the kiosk they share. \<open>request\<close> starts a thread;
  \<open>locker_run\<close> lets the threads named in the schedule take one step each, in order.
\<close>

type_synonym lockers = "locker_pc list \<times> kiosk"

definition request :: "source \<Rightarrow> lockers \<Rightarrow> lockers" where
  "request src st = (fst st @ [L_assert], snd st)"

definition locker_turn :: "nat \<Rightarrow> lockers \<Rightarrow> lockers" where
  "locker_turn i st =
     (if i < length (fst st)
      then (case locker_step (fst st ! i) (snd st) of
              (pc', k') \<Rightarrow> ((fst st)[i := pc'], k'))
      else st)"

fun locker_run :: "nat list \<Rightarrow> lockers \<Rightarrow> lockers" where
  "locker_run [] st = st"
| "locker_run (i # rest) st = locker_run rest (locker_turn i st)"

definition requests :: "source list \<Rightarrow> kiosk \<Rightarrow> lockers" where
  "requests srcs k = fold request srcs ([], k)"

definition writes :: "level \<Rightarrow> kiosk \<Rightarrow> nat" where
  "writes v k = length (filter (\<lambda>w. w = v) (pin_log k))"

definition started :: "locker_pc list \<Rightarrow> nat" where
  "started pcs = length (filter (\<lambda>pc. pc \<noteq> L_assert) pcs)"

definition finished :: "locker_pc list \<Rightarrow> nat" where
  "finished pcs = length (filter (\<lambda>pc. pc = L_done) pcs)"

definition gpio_works :: "kiosk \<Rightarrow> bool" where
  "gpio_works k \<longleftrightarrow> gpio_available k \<and> (\<forall>j. \<not> gpio_raises k j)"

text \<open>
  Where a request thread stands after one more turn on a working pin, and where a new
  request stands after n turns.
\<close>

fun next_pc :: "locker_pc \<Rightarrow> locker_pc" where
  "next_pc L_assert = L_release"
| "next_pc L_release = L_done"
| "next_pc L_done = L_done"

definition after_turns :: "nat \<Rightarrow> locker_pc" where
  "after_turns n = (if n = 0 then L_assert else if n = 1 then L_release else L_done)"

text \<open>\<^verbatim>\<open>str.strip()\<close>: the white space of Python among the code points below 256.\<close>

definition is_space :: "char \<Rightarrow> bool" where
  "is_space c \<longleftrightarrow> (of_char c :: nat) \<in> {9, 10, 11, 12, 13, 28, 29, 30, 31, 32, 133, 160}"

definition strip :: "string \<Rightarrow> string" where
  "strip s = rev (dropWhile is_space (rev (dropWhile is_space s)))"

text \<open>
  The worker thread of enroll_finger_ui, run to its end: try, except (the exception is
  printed), finally (the flag is cleared on every path that returns).
\<close>

definition worker :: "string \<Rightarrow> kiosk \<Rightarrow> kiosk option" where
  "worker user_name k =
     map_option (\<lambda>k'. k'\<lparr>is_enrolling_finger := False\<rparr>)
       (case finger_service k of
          None \<Rightarrow> Some (emit [Printed AttributeError] k)
        | Some fs \<Rightarrow>
           (case find_empty_slot fs of
              (Inl e, fs1) \<Rightarrow> Some (emit [Printed e] (k\<lparr>finger_service := Some fs1\<rparr>))
            | (Inr None, fs1) \<Rightarrow>
                Some (emit [Err_sensor_full] (k\<lparr>finger_service := Some fs1\<rparr>))
            | (Inr (Some slot), fs1) \<Rightarrow>
               (case call_enroll_finger slot [''callback_status''] fs1 of
                  None \<Rightarrow> None
                | Some (Inl e, fs2) \<Rightarrow>
                    Some (emit [Printed e] (k\<lparr>finger_service := Some fs2\<rparr>))
                | Some (Inr success, fs2) \<Rightarrow>
                    if success
                    then (case save_finger_map slot user_name (db_file k) of
                            Inl e \<Rightarrow>
                              Some (emit [Printed e] (k\<lparr>finger_service := Some fs2\<rparr>))
                          | Inr db' \<Rightarrow>
                              Some (emit [Info_enrolled user_name slot, Label_enrolled user_name]
                                      (k\<lparr>finger_service := Some fs2, db_file := db'\<rparr>)))
                    else Some (emit [Err_enroll_failed, Label_enroll_error]
                                 (k\<lparr>finger_service := Some fs2\<rparr>)))))"

text \<open>enroll_finger_ui: the three guards, then the flag is set and the worker started.\<close>

definition enroll_finger_ui :: "kiosk \<Rightarrow> kiosk option" where
  "enroll_finger_ui k =
     (if \<not> admin_authenticated k then Some (emit [Warn_login_needed] k)
      else if \<not> biometrics_ready k \<or> finger_service k = None
      then Some (emit [Err_biometrics_off] k)
      else if strip (name_entry k) = [] then Some (emit [Warn_name_missing] k)
      else worker (strip (name_entry k)) (k\<lparr>is_enrolling_finger := True\<rparr>))"

text \<open>
  One turn of the loop of finger_listen_loop, after the test of \<^verbatim>\<open>self.running\<close>. A
  match starts open_locker in a thread of its own; here it runs at once. Every
  exception inside the try block is caught and printed.
\<close>

definition listen_iteration :: "kiosk \<Rightarrow> kiosk" where
  "listen_iteration k =
     (if \<not> biometrics_ready k then k
      else if is_enrolling_finger k then k
      else case finger_service k of
        None \<Rightarrow> emit [Printed AttributeError] k
      | Some fs \<Rightarrow>
         (case check_finger fs of
            (Inl e, fs') \<Rightarrow> emit [Printed e] (k\<lparr>finger_service := Some fs'\<rparr>)
          | (Inr None, fs') \<Rightarrow> k\<lparr>finger_service := Some fs'\<rparr>
          | (Inr (Some fid), fs') \<Rightarrow>
             (case get_user_by_finger fid (db_file k) of
                Inl e \<Rightarrow> emit [Printed e] (k\<lparr>finger_service := Some fs'\<rparr>)
              | Inr user_found \<Rightarrow>
                  open_locker (emit [Label_digital user_found fid]
                                 (k\<lparr>finger_service := Some fs'\<rparr>)))))"

fun listen_iterations :: "nat \<Rightarrow> kiosk \<Rightarrow> kiosk" where
  "listen_iterations 0 k = k"
| "listen_iterations (Suc n) k = listen_iterations n (listen_iteration k)"

section \<open>The poller and the enrollment as threads\<close>

text \<open>
  finger_listen_loop runs in the thread that initialised the sensor; enroll_finger_ui
  runs in the Tk thread and hands over to its worker thread. Each thread is a program
  counter over the statements of the source, one flag test or one device call per
  step; the kiosk is shared. \<open>calls\<close> records every device call with the thread that
  made it and the value \<^verbatim>\<open>is_enrolling_finger\<close> had at that moment.
\<close>

datatype owner = Poller | Enrollment

datatype poller_pc = P_running | P_ready | P_enrolling | P_available | P_get_image
  | P_image_2_tz | P_finger_search | P_granted int | P_stopped

datatype enroll_pc = E_button | E_available | E_load_model int | E_enroll int
  | E_finally | E_done

definition poller_call ::
  "(service \<Rightarrow> reply \<times> service) \<Rightarrow> (service \<Rightarrow> poller_pc) \<Rightarrow> kiosk \<Rightarrow> poller_pc \<times> kiosk" where
  "poller_call f next k =
     (case finger_service k of
        None \<Rightarrow> (P_running, emit [Printed AttributeError] k)
      | Some fs \<Rightarrow>
         (case f fs of
            (Raises, fs') \<Rightarrow>
              (P_running, emit [Printed DeviceFault] (k\<lparr>finger_service := Some fs'\<rparr>))
          | (Status c, fs') \<Rightarrow>
              (if c \<noteq> OK then P_running else next fs', k\<lparr>finger_service := Some fs'\<rparr>)))"

definition poller_step :: "poller_pc \<Rightarrow> kiosk \<Rightarrow> poller_pc \<times> kiosk" where
  "poller_step pc k =
     (case pc of
        P_running \<Rightarrow> (if running k then P_ready else P_stopped, k)
      | P_ready \<Rightarrow> (if \<not> biometrics_ready k then P_running else P_enrolling, k)
      | P_enrolling \<Rightarrow> (if is_enrolling_finger k then P_running else P_available, k)
      | P_available \<Rightarrow>
          (case finger_service k of
             None \<Rightarrow> (P_running, emit [Printed AttributeError] k)
           | Some fs \<Rightarrow> (if \<not> available fs then P_running else P_get_image, k))
      | P_get_image \<Rightarrow> poller_call (sensor_call Get_image) (\<lambda>fs. P_image_2_tz) k
      | P_image_2_tz \<Rightarrow> poller_call (sensor_call (Image_2_tz 1)) (\<lambda>fs. P_finger_search) k
      | P_finger_search \<Rightarrow> poller_call finger_search (\<lambda>fs. P_granted (finger_id fs)) k
      | P_granted fid \<Rightarrow>
          (P_running,
           case get_user_by_finger fid (db_file k) of
             Inl e \<Rightarrow> emit [Printed e] k
           | Inr user_found \<Rightarrow> open_locker (emit [Label_digital user_found fid] k))
      | P_stopped \<Rightarrow> (P_stopped, k))"

text \<open>
  The enrollment: the button handler is one step (guards, flag); the worker then scans
  the slots, one load_model per step, calls enroll_finger and clears the flag. Were the
  call of enroll_finger accepted, its body would run as one step here.
\<close>

definition enroll_step :: "string \<Rightarrow> enroll_pc \<Rightarrow> kiosk \<Rightarrow> enroll_pc \<times> kiosk" where
  "enroll_step user_name pc k =
     (case pc of
        E_button \<Rightarrow>
          if \<not> admin_authenticated k then (E_done, emit [Warn_login_needed] k)
          else if \<not> biometrics_ready k \<or> finger_service k = None
          then (E_done, emit [Err_biometrics_off] k)
          else if strip (name_entry k) = [] then (E_done, emit [Warn_name_missing] k)
          else (E_available, k\<lparr>is_enrolling_finger := True\<rparr>)
      | E_available \<Rightarrow>
          (case finger_service k of
             None \<Rightarrow> (E_finally, emit [Printed AttributeError] k)
           | Some fs \<Rightarrow>
               if \<not> available fs then (E_finally, emit [Err_sensor_full] k)
               else (E_load_model 1, k))
      | E_load_model i \<Rightarrow>
          if i \<ge> 128 then (E_finally, emit [Err_sensor_full] k)
          else (case finger_service k of
             None \<Rightarrow> (E_finally, emit [Printed AttributeError] k)
           | Some fs \<Rightarrow>
              (case sensor_call (Load_model i) fs of
                 (Raises, fs') \<Rightarrow>
                   (E_finally, emit [Printed DeviceFault] (k\<lparr>finger_service := Some fs'\<rparr>))
               | (Status c, fs') \<Rightarrow>
                   (if c \<noteq> OK then E_enroll i else E_load_model (i + 1),
                    k\<lparr>finger_service := Some fs'\<rparr>)))
      | E_enroll slot \<Rightarrow>
          (case finger_service k of
             None \<Rightarrow> (E_finally, emit [Printed AttributeError] k)
           | Some fs \<Rightarrow>
              (case call_enroll_finger slot [''callback_status''] fs of
                 None \<Rightarrow> (E_enroll slot, k)
               | Some (Inl e, fs') \<Rightarrow>
                   (E_finally, emit [Printed e] (k\<lparr>finger_service := Some fs'\<rparr>))
               | Some (Inr success, fs') \<Rightarrow>
                   (E_finally,
                    if success
                    then (case save_finger_map slot user_name (db_file k) of
                            Inl e \<Rightarrow> emit [Printed e] (k\<lparr>finger_service := Some fs'\<rparr>)
                          | Inr db' \<Rightarrow>
                              emit [Info_enrolled user_name slot, Label_enrolled user_name]
                                (k\<lparr>finger_service := Some fs', db_file := db'\<rparr>))
                    else emit [Err_enroll_failed, Label_enroll_error]
                           (k\<lparr>finger_service := Some fs'\<rparr>))))
      | E_finally \<Rightarrow> (E_done, k\<lparr>is_enrolling_finger := False\<rparr>)
      | E_done \<Rightarrow> (E_done, k))"

record system =
  shared :: kiosk
  poller :: poller_pc
  enrollment :: enroll_pc
  calls :: "(owner \<times> sensor_op \<times> bool) list"

definition trace_of :: "kiosk \<Rightarrow> sensor_op list" where
  "trace_of k = (case finger_service k of None \<Rightarrow> [] | Some fs \<Rightarrow> trace fs)"

definition new_calls :: "owner \<Rightarrow> kiosk \<Rightarrow> kiosk \<Rightarrow> (owner \<times> sensor_op \<times> bool) list" where
  "new_calls who k k' =
     map (\<lambda>op. (who, op, is_enrolling_finger k)) (drop (length (trace_of k)) (trace_of k'))"

definition step :: "owner \<Rightarrow> system \<Rightarrow> system" where
  "step who s =
     (case who of
        Poller \<Rightarrow>
          (case poller_step (poller s) (shared s) of
             (pc', k') \<Rightarrow>
               s\<lparr>shared := k', poller := pc',
                 calls := calls s @ new_calls Poller (shared s) k'\<rparr>)
      | Enrollment \<Rightarrow>
          (case enroll_step (strip (name_entry (shared s))) (enrollment s) (shared s) of
             (pc', k') \<Rightarrow>
               s\<lparr>shared := k', enrollment := pc',
                 calls := calls s @ new_calls Enrollment (shared s) k'\<rparr>))"

fun run :: "owner list \<Rightarrow> system \<Rightarrow> system" where
  "run [] s = s"
| "run (who # rest) s = run rest (step who s)"

text \<open>
  A thread that runs alone: n steps of the poller, or of the enrollment. \<open>scan_outcome\<close>
  is the kiosk the worker leaves when its slot scan has ended with \<open>res\<close>.
\<close>

fun poller_alone :: "nat \<Rightarrow> poller_pc \<times> kiosk \<Rightarrow> poller_pc \<times> kiosk" where
  "poller_alone 0 st = st"
| "poller_alone (Suc n) st = poller_alone n (poller_step (fst st) (snd st))"

fun enroll_alone :: "nat \<Rightarrow> string \<Rightarrow> enroll_pc \<times> kiosk \<Rightarrow> enroll_pc \<times> kiosk" where
  "enroll_alone 0 u st = st"
| "enroll_alone (Suc n) u st = enroll_alone n u (enroll_step u (fst st) (snd st))"

definition scan_outcome :: "kiosk \<Rightarrow> (exn + int option) \<times> service \<Rightarrow> kiosk" where
  "scan_outcome k res =
     (case res of
        (Inl e, fs') \<Rightarrow> emit [Printed e] (k\<lparr>finger_service := Some fs'\<rparr>)
      | (Inr None, fs') \<Rightarrow> emit [Err_sensor_full] (k\<lparr>finger_service := Some fs'\<rparr>)
      | (Inr (Some slot), fs') \<Rightarrow> emit [Printed TypeError] (k\<lparr>finger_service := Some fs'\<rparr>))"

text \<open>
  Two neighbouring device calls are interleaved when the enrollment made the first and
  the poller made the second while the enrollment flag was still set.
\<close>

fun interleaved :: "(owner \<times> sensor_op \<times> bool) list \<Rightarrow> bool" where
  "interleaved (a # b # rest) =
     ((fst a = Enrollment \<and> fst b = Poller \<and> snd (snd b)) \<or> interleaved (b # rest))"
| "interleaved [a] = False"
| "interleaved [] = False"

section \<open>Devices and states used to run the definitions\<close>

text \<open>A device that answers the k-th call with the k-th code of a script, then NOFINGER.\<close>

definition scripted :: "int list \<Rightarrow> service" where
  "scripted codes =
     \<lparr>available = True,
      device = (\<lambda>k op. if k < length codes then Status (codes ! k) else Status NOFINGER),
      found = (\<lambda>k. 5), trace = [], finger_id = 0, console = []\<rparr>"

text \<open>A sensor on which no finger is ever placed.\<close>

definition dead_sensor :: service where
  "dead_sensor = scripted []"

text \<open>A sensor on which a finger is placed and lifted again and again.\<close>

definition tapping_sensor :: service where
  "tapping_sensor =
     \<lparr>available = True,
      device = (\<lambda>k op. if op = Get_image \<and> odd k then Status NOFINGER else Status OK),
      found = (\<lambda>k. 5), trace = [], finger_id = 0, console = []\<rparr>"

text \<open>A sensor on which the finger stays for ever.\<close>

definition held_sensor :: service where
  "held_sensor =
     \<lparr>available = True, device = (\<lambda>k op. Status OK), found = (\<lambda>k. 5), trace = [],
      finger_id = 0, console = []\<rparr>"

text \<open>A sensor on which the finger is placed once, lifted, and never placed again.\<close>

definition lifted_sensor :: service where
  "lifted_sensor = scripted [0, 0]"



text \<open>A kiosk with an administrator logged in, the sensor ready and a working pin.\<close>

definition bench :: "service \<Rightarrow> kiosk" where
  "bench fs =
     \<lparr>running = True, admin_authenticated = True, biometrics_ready = True,
      is_enrolling_finger = False, finger_service = Some fs, name_entry = ''Joao'',
      db_file = init_db toy_bcrypt [7, 7] new_file,
      gpio_available = True, gpio_raises = (\<lambda>k. False), gpio_calls = 0,
      pin_log = [], events = []\<rparr>"

definition race_start :: system where
  "race_start = \<lparr>shared = bench (scripted [0, 1, 0, 0]), poller = P_running,
                  enrollment = E_button, calls = []\<rparr>"

text \<open>
  A schedule: the poller tests its three flags, finds the service available and takes
  an image; the button is pressed and the worker loads slot 1; the poller goes on.
\<close>

definition race_schedule :: "owner list" where
  "race_schedule = [Poller, Poller, Poller, Poller, Poller,
                    Enrollment, Enrollment, Enrollment, Poller]"

text \<open>What the device answers to the calls a scan or a check would make from \<open>fs\<close> on.\<close>

definition load_reply :: "service \<Rightarrow> int \<Rightarrow> reply" where
  "load_reply fs i = device fs (length (trace fs) + nat (i - 1)) (Load_model i)"

definition image_reply :: "service \<Rightarrow> reply" where
  "image_reply fs = device fs (length (trace fs)) Get_image"

definition convert_reply :: "service \<Rightarrow> reply" where
  "convert_reply fs = device fs (length (trace fs) + 1) (Image_2_tz 1)"

definition search_reply :: "service \<Rightarrow> reply" where
  "search_reply fs = device fs (length (trace fs) + 2) Finger_search"

definition search_slot :: "service \<Rightarrow> int" where
  "search_slot fs = found fs (length (trace fs) + 2)"

text \<open>What the device answered to the last call made.\<close>

definition last_reply :: "service \<Rightarrow> reply" where
  "last_reply fs = device fs (length (trace fs) - 1) (last (trace fs))"

text \<open>From now on get_image never answers \<open>target\<close> and never raises.\<close>

definition never_answers :: "int \<Rightarrow> service \<Rightarrow> bool" where
  "never_answers target fs \<longleftrightarrow>
     (\<forall>j\<ge>length (trace fs). \<exists>c. device fs j Get_image = Status c \<and> c \<noteq> target)"

text \<open>However late, get_image will answer OK again, and NOFINGER again.\<close>

definition keeps_changing :: "service \<Rightarrow> bool" where
  "keeps_changing fs \<longleftrightarrow>
     (\<forall>n. \<exists>k\<ge>n. device fs k Get_image = Status OK)
   \<and> (\<forall>n. \<exists>k\<ge>n. device fs k Get_image = Status NOFINGER)"


text \<open>
  The waiting loops in terms of the device. \<open>wait_ends target fs n j r\<close>: a loop that
  makes its first get_image as call n leaves at call j, where get_image answers
  \<open>target\<close> or raises (\<open>r\<close> is that answer); \<open>waits_forever\<close>: it never leaves.
  \<open>polled j fs\<close> is the service after the get_image calls up to call j.
  \<open>stuck\<close>: one of the three waits of an enrollment started on \<open>fs\<close> never ends.
  \<open>captures fs p\<close>: both captures succeed, the second one at call p.
\<close>

definition wait_ends :: "int \<Rightarrow> service \<Rightarrow> nat \<Rightarrow> nat \<Rightarrow> reply \<Rightarrow> bool" where
  "wait_ends target fs n j r \<longleftrightarrow>
     n \<le> j
   \<and> (\<forall>i. n \<le> i \<and> i < j \<longrightarrow> (\<exists>c. device fs i Get_image = Status c \<and> c \<noteq> target))
   \<and> device fs j Get_image = r \<and> (r = Raises \<or> r = Status target)"

definition waits_forever :: "int \<Rightarrow> service \<Rightarrow> nat \<Rightarrow> bool" where
  "waits_forever target fs n \<longleftrightarrow>
     (\<forall>i\<ge>n. \<exists>c. device fs i Get_image = Status c \<and> c \<noteq> target)"

definition stuck :: "service \<Rightarrow> bool" where
  "stuck fs \<longleftrightarrow>
     waits_forever OK fs (length (trace fs))
   \<or> (\<exists>j. wait_ends OK fs (length (trace fs)) j (Status OK)
          \<and> device fs (Suc j) (Image_2_tz 1) = Status OK
          \<and> (waits_forever NOFINGER fs (j + 2)
             \<or> (\<exists>m. wait_ends NOFINGER fs (j + 2) m (Status NOFINGER)
                    \<and> waits_forever OK fs (Suc m))))"


definition polled :: "nat \<Rightarrow> service \<Rightarrow> service" where
  "polled j fs = fs\<lparr>trace := trace fs @ replicate (Suc (j - length (trace fs))) Get_image\<rparr>"

section \<open>Credential store: theorems\<close>

lemma init_db_tables:
  "\<exists>rows fps. admins (init_db bc salt db) = Some rows \<and> fingerprints (init_db bc salt db) = Some fps"
  by (auto simp: init_db_def Let_def create_table_if_not_exists_def insert_admin_def
           split: option.splits sum.splits)

lemma id_outside_sqlite_integer:
  assumes "fingerprints db \<noteq> None" and "\<not> sqlite_integer slot"
  shows "save_finger_map slot username db = Inl OverflowError"
    and "get_user_by_finger slot db = Inl OverflowError"
  using assms by (auto simp: save_finger_map_def get_user_by_finger_def)

lemma map_of_filter_append_same:
  "map_of (filter (\<lambda>r. fst r \<noteq> k) rows @ [(k, v)]) k = Some v"
  by (induction rows) auto

text \<open>
  C7. After init_db has run on a store with no administrator (the admins table absent
  or without rows), the login admin / admin123 succeeds, admin / wrong fails and every
  other user name fails, whatever its password. bcrypt enters through its contract at
  the two passwords: it accepts admin123 against the hash of admin123 and does not
  accept wrong against it.
\<close>

theorem init_db_bootstrap_admin:
  assumes empty: "admins db = None \<or> admins db = Some []"
    and good: "checkpw bc (encode_utf8 ''admin123'') (hashpw bc (encode_utf8 ''admin123'') salt) = Some True"
    and bad: "checkpw bc (encode_utf8 ''wrong'') (hashpw bc (encode_utf8 ''admin123'') salt) \<noteq> Some True"
  shows "check_admin_login bc ''admin'' ''admin123'' (init_db bc salt db) = Inr True
       \<and> check_admin_login bc ''admin'' ''wrong'' (init_db bc salt db) = Inr False
       \<and> (\<forall>u p. u \<noteq> ''admin'' \<longrightarrow> check_admin_login bc u p (init_db bc salt db) = Inr False)"
proof -
  have rows: "admins (init_db bc salt db)
              = Some [(''admin'', hashpw bc (encode_utf8 ''admin123'') salt)]"
    using empty
    by (auto simp: init_db_def Let_def create_table_if_not_exists_def insert_admin_def)
  have ok: "check_admin_login bc ''admin'' ''admin123'' (init_db bc salt db) = Inr True"
    using good by (simp add: check_admin_login_def rows)
  have wrong: "check_admin_login bc ''admin'' ''wrong'' (init_db bc salt db) = Inr False"
    using bad by (auto simp: check_admin_login_def rows split: option.splits)
  have other: "\<forall>u p. u \<noteq> ''admin'' \<longrightarrow> check_admin_login bc u p (init_db bc salt db) = Inr False"
    by (simp add: check_admin_login_def rows)
  from ok wrong other show ?thesis by blast
qed

theorem init_db_bootstrap_admin_witness:
  "check_admin_login toy_bcrypt ''admin'' ''admin123'' (init_db toy_bcrypt [7, 7] new_file) = Inr True
 \<and> check_admin_login toy_bcrypt ''admin'' ''wrong'' (init_db toy_bcrypt [7, 7] new_file) = Inr False
 \<and> check_admin_login toy_bcrypt ''nouser'' ''x'' (init_db toy_bcrypt [7, 7] new_file) = Inr False"
proof -
  have e: "admins new_file = None \<or> admins new_file = Some []"
    by (simp add: new_file_def)
  have g: "checkpw toy_bcrypt (encode_utf8 ''admin123'')
             (hashpw toy_bcrypt (encode_utf8 ''admin123'') [7, 7]) = Some True"
    by (simp add: toy_bcrypt_def)
  have b: "checkpw toy_bcrypt (encode_utf8 ''wrong'')
             (hashpw toy_bcrypt (encode_utf8 ''admin123'') [7, 7]) \<noteq> Some True"
    by (simp add: toy_bcrypt_def encode_utf8_def)
  show ?thesis
    using init_db_bootstrap_admin [OF e g b] by simp
qed

text \<open>
  C9. On a store whose fingerprints table exists (init_db creates it when the program
  is loaded), for a slot that is an SQLite integer, saving id_a and then id_b for the
  slot succeeds twice; the lookup of the slot then gives id_b, and id_b is the only
  identity stored for the slot.
\<close>

theorem save_finger_map_overwrites:
  assumes "fingerprints db \<noteq> None" and "sqlite_integer slot"
  shows "\<exists>db1 db2. save_finger_map slot id_a db = Inr db1
                 \<and> save_finger_map slot id_b db1 = Inr db2
                 \<and> get_user_by_finger slot db2 = Inr id_b
                 \<and> identities_of slot db2 = [id_b]"
proof -
  from assms(1) obtain rows where rows: "fingerprints db = Some rows" by auto
  define rows1 where "rows1 = filter (\<lambda>r. fst r \<noteq> slot) rows @ [(slot, id_a)]"
  define rows2 where "rows2 = filter (\<lambda>r. fst r \<noteq> slot) rows1 @ [(slot, id_b)]"
  have s1: "save_finger_map slot id_a db = Inr (db\<lparr>fingerprints := Some rows1\<rparr>)"
    using assms(2) by (simp add: save_finger_map_def rows rows1_def)
  have s2: "save_finger_map slot id_b (db\<lparr>fingerprints := Some rows1\<rparr>)
            = Inr (db\<lparr>fingerprints := Some rows2\<rparr>)"
    using assms(2) by (simp add: save_finger_map_def rows2_def)
  have g: "get_user_by_finger slot (db\<lparr>fingerprints := Some rows2\<rparr>) = Inr id_b"
    using assms(2)
    by (simp add: get_user_by_finger_def rows2_def map_of_filter_append_same
             del: map_of_append)
  have "filter (\<lambda>r. fst r = slot) (filter (\<lambda>r. fst r \<noteq> slot) rows1) = []"
    by (induction rows1) auto
  then have i: "identities_of slot (db\<lparr>fingerprints := Some rows2\<rparr>) = [id_b]"
    by (simp add: identities_of_def rows2_def)
  from s1 s2 g i show ?thesis by blast
qed

theorem save_finger_map_overwrites_witness:
  "\<exists>db1 db2. save_finger_map 5 ''Joao'' (init_db toy_bcrypt [7, 7] new_file) = Inr db1
           \<and> save_finger_map 5 ''Maria'' db1 = Inr db2
           \<and> get_user_by_finger 5 db2 = Inr ''Maria''
           \<and> identities_of 5 db2 = [''Maria'']"
proof -
  have t: "fingerprints (init_db toy_bcrypt [7, 7] new_file) \<noteq> None"
    using init_db_tables [of toy_bcrypt "[7, 7]" new_file] by auto
  have r: "sqlite_integer 5"
    by (simp add: sqlite_integer_def)
  from t r show ?thesis
    by (rule save_finger_map_overwrites)
qed

text \<open>
  C10. On a store whose fingerprints table exists, the lookup of a slot that is an
  SQLite integer and has no row returns the sentinel name Desconhecido as an ordinary
  value: no exception.
\<close>

theorem get_user_by_finger_unknown:
  assumes "fingerprints db = Some rows" and "sqlite_integer slot"
    and "slot \<notin> fst ` set rows"
  shows "get_user_by_finger slot db = Inr ''Desconhecido''"
proof -
  from assms(3) have "map_of rows slot = None"
    by (simp add: map_of_eq_None_iff)
  with assms(1, 2) show ?thesis
    by (simp add: get_user_by_finger_def)
qed

theorem get_user_by_finger_unknown_witness:
  "fingerprints (init_db toy_bcrypt [7, 7] new_file) = Some []
 \<and> (9::int) \<notin> fst ` set ([] :: (int \<times> string) list)
 \<and> get_user_by_finger 9 (init_db toy_bcrypt [7, 7] new_file) = Inr ''Desconhecido''"
proof -
  have t: "fingerprints (init_db toy_bcrypt [7, 7] new_file) = Some []"
    by (simp add: init_db_def new_file_def create_table_if_not_exists_def Let_def
                  insert_admin_def)
  have r: "sqlite_integer 9"
    by (simp add: sqlite_integer_def)
  have n: "(9::int) \<notin> fst ` set ([] :: (int \<times> string) list)" by simp
  show ?thesis
    using t n get_user_by_finger_unknown [OF t r n] by simp
qed

section \<open>Fingerprint service: slot scan and matching\<close>

lemma scan_slots_found:
  assumes "a \<le> i" "i \<le> b"
    and "\<forall>j. a \<le> j \<and> j < i \<longrightarrow>
           device fs (length (trace fs) + nat (j - a)) (Load_model j) = Status OK"
    and "device fs (length (trace fs) + nat (i - a)) (Load_model i) = Status c" "c \<noteq> OK"
  shows "fst (scan_slots [a..b] fs) = Inr (Some i)"
  using assms
proof (induction "nat (i - a)" arbitrary: a fs)
  case 0
  then have "a = i" by simp
  with 0 show ?case
    by (simp add: upto_rec1 [of i b] sensor_call_def)
next
  case (Suc n)
  then have lt: "a < i" by simp
  then have ab: "a \<le> b" using Suc.prems by simp
  have here: "device fs (length (trace fs)) (Load_model a) = Status OK"
    using Suc.prems(3) lt by (metis diff_self add.right_neutral order_refl nat_0)
  define fs' where "fs' = snd (sensor_call (Load_model a) fs)"
  have next_slot: "scan_slots [a..b] fs = scan_slots [a + 1..b] fs'"
    using here ab by (simp add: upto_rec1 [of a b] sensor_call_def fs'_def)
  have shift: "device fs' (length (trace fs') + nat (j - (a + 1))) op
               = device fs (length (trace fs) + nat (j - a)) op" if "a + 1 \<le> j" for j op
  proof -
    have "length (trace fs') + nat (j - (a + 1)) = length (trace fs) + nat (j - a)"
      using that by (simp add: fs'_def sensor_call_def nat_diff_distrib)
    moreover have "device fs' = device fs" by (simp add: fs'_def sensor_call_def)
    ultimately show ?thesis by (simp only:)
  qed
  have "fst (scan_slots [a + 1..b] fs') = Inr (Some i)"
  proof (rule Suc.hyps(1))
    show "n = nat (i - (a + 1))" using Suc.hyps(2) by simp
    show "a + 1 \<le> i" using lt by simp
    show "i \<le> b" by fact
    show "\<forall>j. a + 1 \<le> j \<and> j < i \<longrightarrow>
            device fs' (length (trace fs') + nat (j - (a + 1))) (Load_model j) = Status OK"
      using Suc.prems(3) by (auto simp: shift)
    show "device fs' (length (trace fs') + nat (i - (a + 1))) (Load_model i) = Status c"
      using Suc.prems(4) lt by (simp add: shift)
    show "c \<noteq> OK" by fact
  qed
  with next_slot show ?case by simp
qed

lemma scan_slots_full:
  assumes "\<forall>j. a \<le> j \<and> j \<le> b \<longrightarrow>
             device fs (length (trace fs) + nat (j - a)) (Load_model j) = Status OK"
  shows "fst (scan_slots [a..b] fs) = Inr None"
  using assms
proof (induction "nat (b + 1 - a)" arbitrary: a fs)
  case 0
  then have "b < a" by simp
  then show ?case by simp
next
  case (Suc n)
  then have ab: "a \<le> b" by simp
  have here: "device fs (length (trace fs)) (Load_model a) = Status OK"
    using Suc.prems ab by (metis diff_self add.right_neutral order_refl nat_0)
  define fs' where "fs' = snd (sensor_call (Load_model a) fs)"
  have next_slot: "scan_slots [a..b] fs = scan_slots [a + 1..b] fs'"
    using here ab by (simp add: upto_rec1 [of a b] sensor_call_def fs'_def)
  have shift: "device fs' (length (trace fs') + nat (j - (a + 1))) op
               = device fs (length (trace fs) + nat (j - a)) op" if "a + 1 \<le> j" for j op
  proof -
    have "length (trace fs') + nat (j - (a + 1)) = length (trace fs) + nat (j - a)"
      using that by (simp add: fs'_def sensor_call_def nat_diff_distrib)
    moreover have "device fs' = device fs" by (simp add: fs'_def sensor_call_def)
    ultimately show ?thesis by (simp only:)
  qed
  have "fst (scan_slots [a + 1..b] fs') = Inr None"
  proof (rule Suc.hyps(1))
    show "n = nat (b + 1 - (a + 1))" using Suc.hyps(2) by simp
    show "\<forall>j. a + 1 \<le> j \<and> j \<le> b \<longrightarrow>
            device fs' (length (trace fs') + nat (j - (a + 1))) (Load_model j) = Status OK"
      using Suc.prems by (auto simp: shift)
  qed
  with next_slot show ?case by simp
qed

text \<open>
  C8. find_empty_slot tries the slots 1, 2, ... 127 in this order. When the service is
  not available it returns None without a device call. Otherwise it returns the first
  slot whose load_model answers a status other than OK, and None when all 127 slots
  answer OK. \<open>load_reply fs i\<close> is the device's answer to the load of slot i in the scan.
\<close>

theorem find_empty_slot_first_free:
  "(\<not> available fs \<longrightarrow> find_empty_slot fs = (Inr None, fs))
 \<and> (available fs \<longrightarrow>
      (\<forall>i c. 1 \<le> i \<and> i \<le> 127
            \<and> (\<forall>j. 1 \<le> j \<and> j < i \<longrightarrow> load_reply fs j = Status OK)
            \<and> load_reply fs i = Status c \<and> c \<noteq> OK
            \<longrightarrow> fst (find_empty_slot fs) = Inr (Some i))
    \<and> ((\<forall>j. 1 \<le> j \<and> j \<le> 127 \<longrightarrow> load_reply fs j = Status OK)
            \<longrightarrow> fst (find_empty_slot fs) = Inr None))"
proof (intro conjI impI allI)
  assume "\<not> available fs"
  then show "find_empty_slot fs = (Inr None, fs)" by (simp add: find_empty_slot_def)
next
  fix i c
  assume av: "available fs"
    and h: "1 \<le> i \<and> i \<le> 127
            \<and> (\<forall>j. 1 \<le> j \<and> j < i \<longrightarrow> load_reply fs j = Status OK)
            \<and> load_reply fs i = Status c \<and> c \<noteq> OK"
  then have "fst (scan_slots [1..127] fs) = Inr (Some i)"
    by (intro scan_slots_found [where c = c]) (auto simp: load_reply_def)
  with av show "fst (find_empty_slot fs) = Inr (Some i)" by (simp add: find_empty_slot_def)
next
  assume av: "available fs"
    and h: "\<forall>j. 1 \<le> j \<and> j \<le> 127 \<longrightarrow> load_reply fs j = Status OK"
  then have "fst (scan_slots [1..127] fs) = Inr None"
    by (intro scan_slots_full) (auto simp: load_reply_def)
  with av show "fst (find_empty_slot fs) = Inr None" by (simp add: find_empty_slot_def)
qed

theorem find_empty_slot_first_free_witness:
  "fst (find_empty_slot (scripted (replicate 3 0))) = Inr (Some 4)
 \<and> fst (find_empty_slot (scripted (replicate 127 0))) = Inr None
 \<and> fst (find_empty_slot (dead_sensor\<lparr>available := False\<rparr>)) = Inr None"
proof -
  have a3: "available (scripted (replicate 3 0))"
    and a127: "available (scripted (replicate 127 0))"
    by (simp_all add: scripted_def)
  have free: "1 \<le> (4::int) \<and> (4::int) \<le> 127
       \<and> (\<forall>j. 1 \<le> j \<and> j < 4 \<longrightarrow> load_reply (scripted (replicate 3 0)) j = Status OK)
       \<and> load_reply (scripted (replicate 3 0)) 4 = Status NOFINGER \<and> NOFINGER \<noteq> OK"
    by (auto simp: load_reply_def scripted_def OK_def NOFINGER_def)
  have full: "\<forall>j. 1 \<le> j \<and> j \<le> 127
                \<longrightarrow> load_reply (scripted (replicate 127 0)) j = Status OK"
    by (auto simp: load_reply_def scripted_def OK_def)
  have off: "\<not> available (dead_sensor\<lparr>available := False\<rparr>)" by simp
  from find_empty_slot_first_free [of "scripted (replicate 3 0)"] a3 free
  have "fst (find_empty_slot (scripted (replicate 3 0))) = Inr (Some 4)" by blast
  moreover from find_empty_slot_first_free [of "scripted (replicate 127 0)"] a127 full
  have "fst (find_empty_slot (scripted (replicate 127 0))) = Inr None" by blast
  moreover from find_empty_slot_first_free [of "dead_sensor\<lparr>available := False\<rparr>"] off
  have "fst (find_empty_slot (dead_sensor\<lparr>available := False\<rparr>)) = Inr None" by simp
  ultimately show ?thesis by blast
qed

lemma check_finger_unavailable:
  "\<not> available fs \<Longrightarrow> check_finger fs = (Inr None, fs)"
  by (simp add: check_finger_def)

lemma check_finger_no_image:
  "available fs \<Longrightarrow> image_reply fs = Status c \<Longrightarrow> c \<noteq> OK
   \<Longrightarrow> check_finger fs = (Inr None, fs\<lparr>trace := trace fs @ [Get_image]\<rparr>)"
  by (simp add: check_finger_def sensor_call_def image_reply_def)

lemma check_finger_no_template:
  "available fs \<Longrightarrow> image_reply fs = Status OK \<Longrightarrow> convert_reply fs = Status c \<Longrightarrow> c \<noteq> OK
   \<Longrightarrow> fst (check_finger fs) = Inr None"
  by (simp add: check_finger_def sensor_call_def image_reply_def convert_reply_def)

lemma check_finger_no_match:
  "available fs \<Longrightarrow> image_reply fs = Status OK \<Longrightarrow> convert_reply fs = Status OK
   \<Longrightarrow> search_reply fs = Status c \<Longrightarrow> c \<noteq> OK
   \<Longrightarrow> fst (check_finger fs) = Inr None"
  by (simp add: check_finger_def sensor_call_def finger_search_def image_reply_def
                convert_reply_def search_reply_def)

lemma check_finger_match:
  "available fs \<Longrightarrow> image_reply fs = Status OK \<Longrightarrow> convert_reply fs = Status OK
   \<Longrightarrow> search_reply fs = Status OK
   \<Longrightarrow> fst (check_finger fs) = Inr (Some (search_slot fs))"
  by (simp add: check_finger_def sensor_call_def finger_search_def image_reply_def
                convert_reply_def search_reply_def search_slot_def)

lemma never_answers_call:
  "never_answers target fs \<Longrightarrow> never_answers target (fs\<lparr>trace := trace fs @ [op]\<rparr>)"
  by (simp add: never_answers_def)

lemma no_finger_check:
  assumes "never_answers OK fs"
  shows "fst (check_finger fs) = Inr None \<and> never_answers OK (snd (check_finger fs))"
proof (cases "available fs")
  case False
  with assms show ?thesis by (simp add: check_finger_unavailable)
next
  case True
  from assms obtain c where "image_reply fs = Status c" "c \<noteq> OK"
    by (auto simp: never_answers_def image_reply_def)
  with True assms show ?thesis
    by (simp add: check_finger_no_image never_answers_call)
qed

lemma check_finger_times_no_finger:
  "never_answers OK fs \<Longrightarrow> fst (check_finger_times m fs) = replicate m (Inr None)"
proof (induction m arbitrary: fs)
  case 0
  then show ?case by simp
next
  case (Suc m)
  from no_finger_check [OF Suc.prems]
  have r: "fst (check_finger fs) = Inr None" and n: "never_answers OK (snd (check_finger fs))"
    by simp_all
  from Suc.IH [OF n] r show ?case
    by (simp add: split_beta)
qed

lemma listen_iteration_no_match:
  assumes "finger_service k = Some fs" "fst (check_finger fs) = Inr None"
  shows "listen_iteration k = k
       \<or> listen_iteration k = k\<lparr>finger_service := Some (snd (check_finger fs))\<rparr>"
  using assms by (auto simp: listen_iteration_def split: prod.splits sum.splits option.splits)

lemma listen_iterations_no_finger:
  "finger_service k = Some fs \<Longrightarrow> never_answers OK fs
   \<Longrightarrow> pin_log (listen_iterations m k) = pin_log k"
proof (induction m arbitrary: k fs)
  case 0
  then show ?case by simp
next
  case (Suc m)
  from no_finger_check [OF Suc.prems(2)]
  have r: "fst (check_finger fs) = Inr None" and n: "never_answers OK (snd (check_finger fs))"
    by simp_all
  from listen_iteration_no_match [OF Suc.prems(1) r]
  show ?case
  proof
    assume "listen_iteration k = k"
    with Suc.IH [OF Suc.prems] show ?thesis by simp
  next
    assume e: "listen_iteration k = k\<lparr>finger_service := Some (snd (check_finger fs))\<rparr>"
    have "finger_service (listen_iteration k) = Some (snd (check_finger fs))"
      by (simp add: e)
    from Suc.IH [OF this n] show ?thesis by (simp add: e)
  qed
qed

text \<open>
  C6. One call of check_finger on an available service makes up to three device calls;
  \<open>image_reply\<close>, \<open>convert_reply\<close> and \<open>search_reply\<close> are the device's answers to them.
  When get_image, image_2_tz or finger_search answers a status other than OK, the call
  returns None as a value (no exception); when all three answer OK it returns the slot
  the search reported. The turn of the polling loop in which the call returned None
  leaves the pin log as it was. On a sensor where no finger is ever placed, m calls in
  a row return None m times, and m turns of the loop leave the pin log as it was, for
  every m.
\<close>

theorem check_finger_outcomes:
  "(available fs \<longrightarrow>
      (\<forall>c. image_reply fs = Status c \<and> c \<noteq> OK \<longrightarrow> fst (check_finger fs) = Inr None)
    \<and> (\<forall>c. image_reply fs = Status OK \<and> convert_reply fs = Status c \<and> c \<noteq> OK
            \<longrightarrow> fst (check_finger fs) = Inr None)
    \<and> (\<forall>c. image_reply fs = Status OK \<and> convert_reply fs = Status OK
            \<and> search_reply fs = Status c \<and> c \<noteq> OK
            \<longrightarrow> fst (check_finger fs) = Inr None)
    \<and> (image_reply fs = Status OK \<and> convert_reply fs = Status OK
            \<and> search_reply fs = Status OK
            \<longrightarrow> fst (check_finger fs) = Inr (Some (search_slot fs))))
 \<and> (finger_service k = Some fs \<and> fst (check_finger fs) = Inr None
      \<longrightarrow> pin_log (listen_iteration k) = pin_log k)
 \<and> (never_answers OK fs \<longrightarrow> fst (check_finger_times m fs) = replicate m (Inr None))
 \<and> (finger_service k = Some fs \<and> never_answers OK fs
      \<longrightarrow> pin_log (listen_iterations m k) = pin_log k)"
proof -
  have single: "finger_service k = Some fs \<and> fst (check_finger fs) = Inr None
                \<longrightarrow> pin_log (listen_iteration k) = pin_log k"
  proof
    assume h: "finger_service k = Some fs \<and> fst (check_finger fs) = Inr None"
    then have "listen_iteration k = k
       \<or> listen_iteration k = k\<lparr>finger_service := Some (snd (check_finger fs))\<rparr>"
      by (intro listen_iteration_no_match) simp_all
    then show "pin_log (listen_iteration k) = pin_log k" by auto
  qed
  show ?thesis
    using single
    by (simp add: check_finger_no_image check_finger_no_template check_finger_no_match
                  check_finger_match check_finger_times_no_finger
                  listen_iterations_no_finger)
qed

theorem check_finger_outcomes_witness:
  "fst (check_finger dead_sensor) = Inr None
 \<and> fst (check_finger (scripted (replicate 3 0))) = Inr (Some 5)
 \<and> fst (check_finger_times 1000 dead_sensor) = replicate 1000 (Inr None)
 \<and> pin_log (listen_iterations 1000 (bench dead_sensor)) = []"
proof -
  have av: "available dead_sensor" "available (scripted (replicate 3 0))"
    by (simp_all add: dead_sensor_def scripted_def)
  have none: "image_reply dead_sensor = Status NOFINGER \<and> NOFINGER \<noteq> OK"
    by (simp add: image_reply_def dead_sensor_def scripted_def OK_def NOFINGER_def)
  have hit: "image_reply (scripted (replicate 3 0)) = Status OK
       \<and> convert_reply (scripted (replicate 3 0)) = Status OK
       \<and> search_reply (scripted (replicate 3 0)) = Status OK"
    by (simp add: image_reply_def convert_reply_def search_reply_def scripted_def OK_def)
  have slot: "search_slot (scripted (replicate 3 0)) = 5"
    by (simp add: search_slot_def scripted_def)
  have never: "never_answers OK dead_sensor"
    by (simp add: never_answers_def dead_sensor_def scripted_def OK_def NOFINGER_def)
  have svc: "finger_service (bench dead_sensor) = Some dead_sensor"
    and pin: "pin_log (bench dead_sensor) = []"
    by (simp_all add: bench_def)
  from check_finger_outcomes [of dead_sensor "bench dead_sensor" 1000] av(1) none never svc pin
  have "fst (check_finger dead_sensor) = Inr None
      \<and> fst (check_finger_times 1000 dead_sensor) = replicate 1000 (Inr None)
      \<and> pin_log (listen_iterations 1000 (bench dead_sensor)) = []"
    by simp
  moreover
  from check_finger_outcomes [of "scripted (replicate 3 0)" "bench dead_sensor" 0] av(2) hit slot
  have "fst (check_finger (scripted (replicate 3 0))) = Inr (Some 5)"
    by simp
  ultimately show ?thesis by blast
qed



section \<open>Enrollment\<close>

lemma await_image_decisive:
  assumes "await_image target fs = Some y"
  shows "\<exists>j\<ge>length (trace fs). device fs j Get_image = Raises
                              \<or> device fs j Get_image = Status target"
proof (rule await_image.raw_induct
         [where P = "\<lambda>t s y. \<exists>j\<ge>length (trace s). device s j Get_image = Raises
                                              \<or> device s j Get_image = Status t",
          OF _ assms])
  fix loop :: "int \<Rightarrow> service \<Rightarrow> ((exn + unit) \<times> service) option"
  fix t s z
  assume IH: "\<And>t s z. loop t s = Some z
                \<Longrightarrow> \<exists>j\<ge>length (trace s). device s j Get_image = Raises
                                          \<or> device s j Get_image = Status t"
    and eq: "(case sensor_call Get_image s of
                (Raises, fs') \<Rightarrow> Some (Inl DeviceFault, fs')
              | (Status c, fs') \<Rightarrow>
                  if c \<noteq> t then loop t fs' else Some (Inr (), fs')) = Some z"
  show "\<exists>j\<ge>length (trace s). device s j Get_image = Raises
                              \<or> device s j Get_image = Status t"
  proof (cases "device s (length (trace s)) Get_image")
    case Raises
    then show ?thesis by blast
  next
    case (Status c)
    show ?thesis
    proof (cases "c = t")
      case True
      with Status show ?thesis by blast
    next
      case False
      with Status eq
      have "loop t (s\<lparr>trace := trace s @ [Get_image]\<rparr>) = Some z"
        by (simp add: sensor_call_def)
      from IH [OF this] obtain j where "Suc (length (trace s)) \<le> j"
        and "device s j Get_image = Raises \<or> device s j Get_image = Status t"
        by auto
      then show ?thesis
        by (intro exI [of _ j]) simp
    qed
  qed
qed

lemma await_image_diverges:
  "never_answers target fs \<Longrightarrow> await_image target fs = None"
proof (rule ccontr)
  assume n: "never_answers target fs" and "await_image target fs \<noteq> None"
  then obtain y where "await_image target fs = Some y" by auto
  from await_image_decisive [OF this] n show False
    by (auto simp: never_answers_def)
qed

lemma await_image_returns:
  "device fs (length (trace fs) + k) Get_image = Status target
   \<Longrightarrow> \<exists>r fs'. await_image target fs = Some (r, fs')"
proof (induction k arbitrary: fs)
  case 0
  then show ?case
    by (subst await_image.simps) (simp add: sensor_call_def)
next
  case (Suc k)
  show ?case
  proof (cases "device fs (length (trace fs)) Get_image")
    case Raises
    then show ?thesis
      by (subst await_image.simps) (simp add: sensor_call_def)
  next
    case (Status c)
    show ?thesis
    proof (cases "c = target")
      case True
      with Status show ?thesis
        by (subst await_image.simps) (simp add: sensor_call_def)
    next
      case False
      have "\<exists>r fs'. await_image target (fs\<lparr>trace := trace fs @ [Get_image]\<rparr>) = Some (r, fs')"
        using Suc.prems by (intro Suc.IH) simp
      with Status False show ?thesis
        by (subst await_image.simps) (simp add: sensor_call_def)
    qed
  qed
qed

lemma await_image_effect:
  assumes "await_image target fs = Some y"
  shows "device (snd y) = device fs \<and> console (snd y) = console fs
       \<and> (\<exists>n. trace (snd y) = trace fs @ replicate (Suc n) Get_image)"
proof (rule await_image.raw_induct
         [where P = "\<lambda>t s y. device (snd y) = device s \<and> console (snd y) = console s
                       \<and> (\<exists>n. trace (snd y) = trace s @ replicate (Suc n) Get_image)",
          OF _ assms])
  fix loop :: "int \<Rightarrow> service \<Rightarrow> ((exn + unit) \<times> service) option"
  fix t s z
  assume IH: "\<And>t s z. loop t s = Some z
                \<Longrightarrow> device (snd z) = device s \<and> console (snd z) = console s
                  \<and> (\<exists>n. trace (snd z) = trace s @ replicate (Suc n) Get_image)"
    and eq: "(case sensor_call Get_image s of
                (Raises, fs') \<Rightarrow> Some (Inl DeviceFault, fs')
              | (Status c, fs') \<Rightarrow>
                  if c \<noteq> t then loop t fs' else Some (Inr (), fs')) = Some z"
  show "device (snd z) = device s \<and> console (snd z) = console s
      \<and> (\<exists>n. trace (snd z) = trace s @ replicate (Suc n) Get_image)"
  proof (cases "device s (length (trace s)) Get_image")
    case Raises
    with eq have "z = (Inl DeviceFault, s\<lparr>trace := trace s @ [Get_image]\<rparr>)"
      by (auto simp: sensor_call_def)
    then show ?thesis by (auto intro: exI [of _ 0])
  next
    case (Status c)
    show ?thesis
    proof (cases "c = t")
      case True
      with Status eq have "z = (Inr (), s\<lparr>trace := trace s @ [Get_image]\<rparr>)"
        by (auto simp: sensor_call_def)
      then show ?thesis by (auto intro: exI [of _ 0])
    next
      case False
      with Status eq
      have "loop t (s\<lparr>trace := trace s @ [Get_image]\<rparr>) = Some z"
        by (simp add: sensor_call_def)
      from IH [OF this] obtain n where
        "device (snd z) = device s" "console (snd z) = console s"
        "trace (snd z) = (trace s @ [Get_image]) @ replicate (Suc n) Get_image"
        by auto
      then show ?thesis
        by (auto intro: exI [of _ "Suc n"])
    qed
  qed
qed

lemma await_image_last:
  assumes "await_image target fs = Some (r, fs')"
  shows "device fs' = device fs" "console fs' = console fs" "last (trace fs') = Get_image"
    "trace fs' \<noteq> []"
  using await_image_effect [OF assms] by auto

lemma keeps_changing_await:
  "await_image target fs = Some (r, fs') \<Longrightarrow> keeps_changing fs' = keeps_changing fs"
  using await_image_last(1) [of target fs r fs'] by (simp add: keeps_changing_def)

lemma keeps_changing_say [simp]: "keeps_changing (say m fs) = keeps_changing fs"
  by (simp add: keeps_changing_def say_def)

lemma keeps_changing_call:
  "sensor_call op fs = (r, fs') \<Longrightarrow> keeps_changing fs' = keeps_changing fs"
  by (auto simp: sensor_call_def keeps_changing_def)

lemma keeps_changing_OK:
  assumes "keeps_changing fs"
  shows "\<exists>r fs'. await_image OK fs = Some (r, fs')"
proof -
  from assms obtain k where "k \<ge> length (trace fs)" "device fs k Get_image = Status OK"
    by (auto simp: keeps_changing_def)
  then have "device fs (length (trace fs) + (k - length (trace fs))) Get_image = Status OK"
    by simp
  then show ?thesis by (rule await_image_returns)
qed

lemma keeps_changing_NOFINGER:
  assumes "keeps_changing fs"
  shows "\<exists>r fs'. await_image NOFINGER fs = Some (r, fs')"
proof -
  from assms obtain k where "k \<ge> length (trace fs)" "device fs k Get_image = Status NOFINGER"
    by (auto simp: keeps_changing_def)
  then have "device fs (length (trace fs) + (k - length (trace fs))) Get_image
             = Status NOFINGER"
    by simp
  then show ?thesis by (rule await_image_returns)
qed

lemma enroll_finger_returns:
  assumes k: "keeps_changing fs"
  shows "\<exists>r. enroll_finger location_id fs = Some r"
proof -
  obtain r1 s1 where a1: "await_image OK (say (Msg_place_finger location_id) fs) = Some (r1, s1)"
    using keeps_changing_OK [of "say (Msg_place_finger location_id) fs"] k by auto
  have k1: "keeps_changing s1"
    using keeps_changing_await [OF a1] k by simp
  obtain r2 s2 where c2: "sensor_call (Image_2_tz 1) (say Msg_image1 s1) = (r2, s2)"
    by fastforce
  have k2: "keeps_changing s2"
    using keeps_changing_call [OF c2] k1 by simp
  obtain r3 s3 where a3: "await_image NOFINGER (say Msg_remove s2) = Some (r3, s3)"
    using keeps_changing_NOFINGER [of "say Msg_remove s2"] k2 by auto
  have k3: "keeps_changing s3"
    using keeps_changing_await [OF a3] k2 by simp
  obtain r4 s4 where a4: "await_image OK (say Msg_place_again s3) = Some (r4, s4)"
    using keeps_changing_OK [of "say Msg_place_again s3"] k3 by auto
  show ?thesis
    by (simp add: enroll_finger_def a1 c2 a3 a4
             split: sum.split reply.split prod.split)
qed

lemma enroll_finger_spins:
  assumes "available fs" "never_answers OK fs"
  shows "enroll_finger location_id fs = None"
proof -
  have "never_answers OK (say (Msg_place_finger location_id) fs)"
    using assms(2) by (simp add: never_answers_def say_def)
  then have a: "await_image OK (say (Msg_place_finger location_id) fs) = None"
    by (rule await_image_diverges)
  with assms(1) show ?thesis
    by (simp add: enroll_finger_def)
qed

lemma dead_sensor_never_answers: "available dead_sensor \<and> never_answers OK dead_sensor"
  by (simp add: dead_sensor_def scripted_def never_answers_def OK_def NOFINGER_def)

lemma tapping_sensor_keeps_changing: "keeps_changing tapping_sensor"
proof -
  have "\<exists>k\<ge>n. device tapping_sensor k Get_image = Status OK" for n
    by (intro exI [of _ "2 * n"]) (simp add: tapping_sensor_def)
  moreover have "\<exists>k\<ge>n. device tapping_sensor k Get_image = Status NOFINGER" for n
    by (intro exI [of _ "2 * n + 1"]) (simp add: tapping_sensor_def)
  ultimately show ?thesis by (simp add: keeps_changing_def)
qed

lemma wait_ends_same_device:
  "device fs' = device fs \<Longrightarrow> wait_ends target fs' n j r = wait_ends target fs n j r"
  by (simp add: wait_ends_def)

lemma waits_forever_same_device:
  "device fs' = device fs \<Longrightarrow> waits_forever target fs' n = waits_forever target fs n"
  by (simp add: waits_forever_def)

lemma never_answers_waits_forever:
  "never_answers target fs = waits_forever target fs (length (trace fs))"
  by (simp add: never_answers_def waits_forever_def)

lemma await_image_ends:
  assumes "wait_ends target fs (length (trace fs)) j r"
  shows "await_image target fs
         = Some (if r = Raises then Inl DeviceFault else Inr (), polled j fs)"
  using assms
proof (induction "j - length (trace fs)" arbitrary: fs)
  case 0
  then have j: "j = length (trace fs)" by (simp add: wait_ends_def)
  with "0.prems" have "device fs (length (trace fs)) Get_image = r"
    and "r = Raises \<or> r = Status target"
    by (simp_all add: wait_ends_def)
  then show ?case
    by (subst await_image.simps) (auto simp: sensor_call_def polled_def j)
next
  case (Suc d)
  then have lt: "length (trace fs) < j" by simp
  with Suc.prems obtain c where c: "device fs (length (trace fs)) Get_image = Status c"
    "c \<noteq> target"
    by (auto simp: wait_ends_def)
  let ?fs = "fs\<lparr>trace := trace fs @ [Get_image]\<rparr>"
  have "wait_ends target ?fs (length (trace ?fs)) j r"
    using Suc.prems lt by (auto simp: wait_ends_def)
  moreover have "d = j - length (trace ?fs)" using Suc.hyps(2) by simp
  ultimately have "await_image target ?fs
         = Some (if r = Raises then Inl DeviceFault else Inr (), polled j ?fs)"
    by (rule Suc.hyps(1) [rotated])
  moreover have "polled j ?fs = polled j fs"
    using lt by (simp add: polled_def Suc_diff_Suc replicate_app_Cons_same)
  ultimately show ?case
    using c by (subst await_image.simps) (simp add: sensor_call_def)
qed

lemma wait_ends_or_forever:
  "waits_forever target fs n \<or> (\<exists>j r. wait_ends target fs n j r)"
proof (cases "waits_forever target fs n")
  case True
  then show ?thesis by simp
next
  case False
  define Q where "Q i \<longleftrightarrow> n \<le> i \<and> (device fs i Get_image = Raises
                                  \<or> device fs i Get_image = Status target)" for i
  from False obtain i where "Q i"
    unfolding waits_forever_def Q_def by (metis reply.exhaust)
  define j where "j = (LEAST i. Q i)"
  have qj: "Q j" unfolding j_def using \<open>Q i\<close> by (rule LeastI)
  have least: "\<not> Q i" if "i < j" for i
    using that unfolding j_def by (rule not_less_Least)
  have "wait_ends target fs n j (device fs j Get_image)"
    unfolding wait_ends_def
  proof (intro conjI allI impI)
    show "n \<le> j" using qj by (simp add: Q_def)
    show "device fs j Get_image = device fs j Get_image" by simp
    show "device fs j Get_image = Raises \<or> device fs j Get_image = Status target"
      using qj by (simp add: Q_def)
  next
    fix i assume "n \<le> i \<and> i < j"
    with least [of i] show "\<exists>c. device fs i Get_image = Status c \<and> c \<noteq> target"
      unfolding Q_def by (cases "device fs i Get_image") auto
  qed
  then show ?thesis by blast
qed

lemma wait_ends_unique:
  assumes "wait_ends target fs n j r" "wait_ends target fs n j' r'"
  shows "j = j' \<and> r = r'"
proof -
  have "\<not> j < j'" using assms by (auto simp: wait_ends_def)
  moreover have "\<not> j' < j" using assms by (auto simp: wait_ends_def)
  ultimately have "j = j'" by simp
  with assms show ?thesis by (auto simp: wait_ends_def)
qed

lemma wait_ends_not_forever:
  "wait_ends target fs n j r \<Longrightarrow> \<not> waits_forever target fs n"
  by (auto simp: wait_ends_def waits_forever_def)

lemma polled_fields [simp]:
  "device (polled j fs) = device fs"
  "console (polled j fs) = console fs"
  "available (polled j fs) = available fs"
  "found (polled j fs) = found fs"
  by (simp_all add: polled_def)

lemma polled_length:
  "length (trace fs) \<le> j \<Longrightarrow> length (trace (polled j fs)) = Suc j"
  by (simp add: polled_def)

lemma enroll_finger_parts:
  "enroll_finger location_id fs =
     (if \<not> available fs then Some (Inr False, fs)
      else case await_image OK (say (Msg_place_finger location_id) fs) of
        None \<Rightarrow> None
      | Some (Inl e, fs1) \<Rightarrow> Some (Inl e, fs1)
      | Some (Inr u, fs1) \<Rightarrow>
         (case sensor_call (Image_2_tz 1) (say Msg_image1 fs1) of
            (Raises, fs2) \<Rightarrow> Some (Inl DeviceFault, fs2)
          | (Status c2, fs2) \<Rightarrow>
             if c2 \<noteq> OK then Some (Inr False, fs2)
             else await_removal location_id fs2))"
  unfolding enroll_finger_def await_removal_def await_second_def finish_enroll_def
  by (rule refl)

lemma say_fields [simp]:
  "device (say m fs) = device fs" "trace (say m fs) = trace fs"
  "console (say m fs) = console fs @ [m]" "available (say m fs) = available fs"
  by (simp_all add: say_def)

lemma converted_fields [simp]:
  "device (converted fs) = device fs" "trace (converted fs) = trace fs @ [Image_2_tz 1]"
  "console (converted fs) = console fs @ [Msg_image1]"
  by (simp_all add: converted_def sensor_call_def)

text \<open>A waiting loop followed by the rest of the method.\<close>

lemma wait_part:
  fixes rest :: "service \<Rightarrow> ((exn + bool) \<times> service) option"
  defines "part \<equiv> \<lambda>target msg s.
     (case await_image target (say msg s) of
        None \<Rightarrow> None
      | Some (Inl e, s') \<Rightarrow> Some (Inl e, s')
      | Some (Inr u, s') \<Rightarrow> rest s')"
  shows "waits_forever target s (length (trace s)) \<Longrightarrow> part target msg s = None"
    and "wait_ends target s (length (trace s)) j Raises
         \<Longrightarrow> part target msg s = Some (Inl DeviceFault, polled j (say msg s))"
    and "wait_ends target s (length (trace s)) j (Status target)
         \<Longrightarrow> part target msg s = rest (polled j (say msg s))"
proof -
  show "part target msg s = None" if "waits_forever target s (length (trace s))"
  proof -
    from that have "never_answers target (say msg s)"
      by (simp add: never_answers_def waits_forever_def)
    then have "await_image target (say msg s) = None" by (rule await_image_diverges)
    then show ?thesis by (simp add: part_def)
  qed
  show "part target msg s = Some (Inl DeviceFault, polled j (say msg s))"
    if "wait_ends target s (length (trace s)) j Raises"
  proof -
    from that have "wait_ends target (say msg s) (length (trace (say msg s))) j Raises"
      by (simp add: wait_ends_def)
    from await_image_ends [OF this] show ?thesis by (simp add: part_def)
  qed
  show "part target msg s = rest (polled j (say msg s))"
    if "wait_ends target s (length (trace s)) j (Status target)"
  proof -
    from that have "wait_ends target (say msg s) (length (trace (say msg s))) j (Status target)"
      by (simp add: wait_ends_def)
    from await_image_ends [OF this] show ?thesis by (simp add: part_def)
  qed
qed

lemma finish_enroll_returns: "\<exists>r. finish_enroll location_id fs = Some r"
  by (simp add: finish_enroll_def split: prod.split reply.split)

lemma await_second_cases:
  "waits_forever OK s (length (trace s)) \<Longrightarrow> await_second location_id s = None"
  "wait_ends OK s (length (trace s)) j Raises
   \<Longrightarrow> await_second location_id s = Some (Inl DeviceFault, polled j (say Msg_place_again s))"
  "wait_ends OK s (length (trace s)) j (Status OK)
   \<Longrightarrow> await_second location_id s = finish_enroll location_id (polled j (say Msg_place_again s))"
  unfolding await_second_def
  by (rule wait_part(1), assumption) (rule wait_part(2), assumption, rule wait_part(3), assumption)

lemma await_removal_cases:
  "waits_forever NOFINGER s (length (trace s)) \<Longrightarrow> await_removal location_id s = None"
  "wait_ends NOFINGER s (length (trace s)) j Raises
   \<Longrightarrow> await_removal location_id s = Some (Inl DeviceFault, polled j (say Msg_remove s))"
  "wait_ends NOFINGER s (length (trace s)) j (Status NOFINGER)
   \<Longrightarrow> await_removal location_id s = await_second location_id (polled j (say Msg_remove s))"
  unfolding await_removal_def
  by (rule wait_part(1), assumption) (rule wait_part(2), assumption, rule wait_part(3), assumption)

lemma first_wait_cases:
  assumes "available fs"
  shows "waits_forever OK fs (length (trace fs)) \<Longrightarrow> enroll_finger location_id fs = None"
    and "wait_ends OK fs (length (trace fs)) j Raises
         \<Longrightarrow> map_option fst (enroll_finger location_id fs) = Some (Inl DeviceFault)"
    and "wait_ends OK fs (length (trace fs)) j (Status OK)
         \<Longrightarrow> device fs (Suc j) (Image_2_tz 1) = Raises
         \<Longrightarrow> map_option fst (enroll_finger location_id fs) = Some (Inl DeviceFault)"
    and "wait_ends OK fs (length (trace fs)) j (Status OK)
         \<Longrightarrow> device fs (Suc j) (Image_2_tz 1) = Status c \<Longrightarrow> c \<noteq> OK
         \<Longrightarrow> map_option fst (enroll_finger location_id fs) = Some (Inr False)"
    and "wait_ends OK fs (length (trace fs)) j (Status OK)
         \<Longrightarrow> device fs (Suc j) (Image_2_tz 1) = Status OK
         \<Longrightarrow> enroll_finger location_id fs
             = await_removal location_id
                 (converted (polled j (say (Msg_place_finger location_id) fs)))"
proof -
  let ?s = "say (Msg_place_finger location_id) fs"
  show "enroll_finger location_id fs = None" if "waits_forever OK fs (length (trace fs))"
  proof -
    from that have "never_answers OK ?s"
      by (simp add: never_answers_def waits_forever_def)
    then have "await_image OK ?s = None" by (rule await_image_diverges)
    with assms show ?thesis by (simp add: enroll_finger_parts)
  qed
  show "map_option fst (enroll_finger location_id fs) = Some (Inl DeviceFault)"
    if "wait_ends OK fs (length (trace fs)) j Raises"
  proof -
    from that have "wait_ends OK ?s (length (trace ?s)) j Raises"
      by (simp add: wait_ends_def)
    from await_image_ends [OF this] assms show ?thesis by (simp add: enroll_finger_parts)
  qed
  have ok: "await_image OK ?s = Some (Inr (), polled j ?s)"
    and len: "length (trace (polled j ?s)) = Suc j"
    if "wait_ends OK fs (length (trace fs)) j (Status OK)"
  proof -
    from that have w: "wait_ends OK ?s (length (trace ?s)) j (Status OK)"
      by (simp add: wait_ends_def)
    from await_image_ends [OF w] show "await_image OK ?s = Some (Inr (), polled j ?s)"
      by simp
    from that show "length (trace (polled j ?s)) = Suc j"
      by (simp add: polled_length wait_ends_def)
  qed
  show "map_option fst (enroll_finger location_id fs) = Some (Inl DeviceFault)"
    if "wait_ends OK fs (length (trace fs)) j (Status OK)"
      "device fs (Suc j) (Image_2_tz 1) = Raises"
    using assms ok [OF that(1)] len [OF that(1)] that(2)
    by (simp add: enroll_finger_parts sensor_call_def)
  show "map_option fst (enroll_finger location_id fs) = Some (Inr False)"
    if "wait_ends OK fs (length (trace fs)) j (Status OK)"
      "device fs (Suc j) (Image_2_tz 1) = Status c" "c \<noteq> OK"
    using assms ok [OF that(1)] len [OF that(1)] that(2,3)
    by (simp add: enroll_finger_parts sensor_call_def)
  show "enroll_finger location_id fs
        = await_removal location_id (converted (polled j ?s))"
    if "wait_ends OK fs (length (trace fs)) j (Status OK)"
      "device fs (Suc j) (Image_2_tz 1) = Status OK"
    using assms ok [OF that(1)] len [OF that(1)] that(2)
    by (simp add: enroll_finger_parts sensor_call_def converted_def)
qed


lemma after_first_capture:
  assumes "wait_ends OK fs (length (trace fs)) j (Status OK)"
  shows "device (converted (polled j (say (Msg_place_finger location_id) fs))) = device fs"
    and "length (trace (converted (polled j (say (Msg_place_finger location_id) fs)))) = j + 2"
    and "console (converted (polled j (say (Msg_place_finger location_id) fs)))
         = console fs @ [Msg_place_finger location_id, Msg_image1]"
  using assms by (simp_all add: polled_length wait_ends_def)

lemma wait_ends_at:
  assumes "wait_ends target fs n j r" and "device s = device fs" and "length (trace s) = n"
  shows "wait_ends target s (length (trace s)) j r"
  using assms by (simp add: wait_ends_def)

lemma after_wait:
  assumes "wait_ends target fs n j r" and "device s = device fs" and "length (trace s) = n"
  shows "device (polled j (say msg s)) = device fs"
    and "length (trace (polled j (say msg s))) = Suc j"
  using assms by (simp_all add: polled_length wait_ends_def)

lemma forever_at:
  assumes "waits_forever target fs n" and "device s = device fs" and "length (trace s) = n"
  shows "waits_forever target s (length (trace s))"
  using assms by (simp add: waits_forever_def)

lemma enroll_finger_stuck:
  assumes av: "available fs" and st: "stuck fs"
  shows "enroll_finger location_id fs = None"
proof -
  from st consider
      (first) "waits_forever OK fs (length (trace fs))"
    | (removal) j where "wait_ends OK fs (length (trace fs)) j (Status OK)"
        "device fs (Suc j) (Image_2_tz 1) = Status OK" "waits_forever NOFINGER fs (j + 2)"
    | (second) j m where "wait_ends OK fs (length (trace fs)) j (Status OK)"
        "device fs (Suc j) (Image_2_tz 1) = Status OK"
        "wait_ends NOFINGER fs (j + 2) m (Status NOFINGER)" "waits_forever OK fs (Suc m)"
    unfolding stuck_def by blast
  then show ?thesis
  proof cases
    case first
    with av show ?thesis by (rule first_wait_cases(1))
  next
    case removal
    let ?b1 = "converted (polled j (say (Msg_place_finger location_id) fs))"
    note b1 = after_first_capture [OF removal(1), of location_id]
    have "enroll_finger location_id fs = await_removal location_id ?b1"
      using av removal(1,2) by (rule first_wait_cases(5))
    moreover have "await_removal location_id ?b1 = None"
      using forever_at [OF removal(3) b1(1,2)] by (rule await_removal_cases(1))
    ultimately show ?thesis by simp
  next
    case second
    let ?b1 = "converted (polled j (say (Msg_place_finger location_id) fs))"
    let ?b2 = "polled m (say Msg_remove ?b1)"
    note b1 = after_first_capture [OF second(1), of location_id]
    note a2 = wait_ends_at [OF second(3) b1(1,2)]
    note b2 = after_wait [OF second(3) b1(1,2), of Msg_remove]
    have "enroll_finger location_id fs = await_removal location_id ?b1"
      using av second(1,2) by (rule first_wait_cases(5))
    moreover have "await_removal location_id ?b1 = await_second location_id ?b2"
      using a2 by (rule await_removal_cases(3))
    moreover have "await_second location_id ?b2 = None"
      using forever_at [OF second(4) b2] by (rule await_second_cases(1))
    ultimately show ?thesis by simp
  qed
qed

lemma wait_ends_reply:
  "wait_ends target fs n j r \<Longrightarrow> r = Raises \<or> r = Status target"
  by (simp add: wait_ends_def)

lemma enroll_finger_None_stuck:
  assumes none: "enroll_finger location_id fs = None"
  shows "available fs \<and> stuck fs"
proof -
  have av: "available fs"
    using none by (auto simp: enroll_finger_def split: if_splits)
  have "stuck fs"
  proof (rule ccontr)
    assume ns: "\<not> stuck fs"
    then have "\<not> waits_forever OK fs (length (trace fs))" by (simp add: stuck_def)
    with wait_ends_or_forever [of OK fs "length (trace fs)"]
    obtain j r where w1: "wait_ends OK fs (length (trace fs)) j r" by blast
    have r: "r = Status OK"
      using wait_ends_reply [OF w1] first_wait_cases(2) [OF av, of j location_id] w1 none
      by auto
    note w1 = w1 [unfolded r]
    have c1: "device fs (Suc j) (Image_2_tz 1) = Status OK"
    proof (cases "device fs (Suc j) (Image_2_tz 1)")
      case Raises
      with first_wait_cases(3) [OF av w1, of location_id] none show ?thesis by simp
    next
      case (Status c)
      with first_wait_cases(4) [OF av w1, of c location_id] none show ?thesis by auto
    qed
    let ?b1 = "converted (polled j (say (Msg_place_finger location_id) fs))"
    note b1 = after_first_capture [OF w1, of location_id]
    have e1: "enroll_finger location_id fs = await_removal location_id ?b1"
      using av w1 c1 by (rule first_wait_cases(5))
    from ns w1 c1 have "\<not> waits_forever NOFINGER fs (j + 2)" by (auto simp: stuck_def)
    with wait_ends_or_forever [of NOFINGER fs "j + 2"]
    obtain m r2 where w2: "wait_ends NOFINGER fs (j + 2) m r2" by blast
    have r2: "r2 = Status NOFINGER"
    proof (rule ccontr)
      assume "r2 \<noteq> Status NOFINGER"
      with wait_ends_reply [OF w2] have "r2 = Raises" by simp
      with wait_ends_at [OF w2 b1(1,2)]
      have "await_removal location_id ?b1
            = Some (Inl DeviceFault, polled m (say Msg_remove ?b1))"
        by (intro await_removal_cases(2)) simp
      with e1 none show False by simp
    qed
    note w2 = w2 [unfolded r2]
    let ?b2 = "polled m (say Msg_remove ?b1)"
    note a2 = wait_ends_at [OF w2 b1(1,2)]
    note b2 = after_wait [OF w2 b1(1,2), of Msg_remove]
    have e2: "await_removal location_id ?b1 = await_second location_id ?b2"
      using a2 by (rule await_removal_cases(3))
    from ns w1 c1 w2 have "\<not> waits_forever OK fs (Suc m)" by (auto simp: stuck_def)
    with wait_ends_or_forever [of OK fs "Suc m"]
    obtain p r3 where w3: "wait_ends OK fs (Suc m) p r3" by blast
    note a3 = wait_ends_at [OF w3 b2]
    from wait_ends_reply [OF w3] have "\<exists>y. await_second location_id ?b2 = Some y"
    proof
      assume "r3 = Raises"
      with a3 have "await_second location_id ?b2
            = Some (Inl DeviceFault, polled p (say Msg_place_again ?b2))"
        by (intro await_second_cases(2)) simp
      then show ?thesis by simp
    next
      assume "r3 = Status OK"
      with a3 have "await_second location_id ?b2
            = finish_enroll location_id (polled p (say Msg_place_again ?b2))"
        by (intro await_second_cases(3)) simp
      with finish_enroll_returns [of location_id "polled p (say Msg_place_again ?b2)"]
      show ?thesis by simp
    qed
    with e1 e2 none show False by simp
  qed
  with av show ?thesis by simp
qed


text \<open>
  C3, as stated: every enrollment run terminates, also on a device that never reports
  a finger. On the sensor on which no finger is ever placed the run of enroll_finger
  has no result: it stays in the first waiting loop.
\<close>

theorem enroll_finger_never_returns:
  "enroll_finger 1 dead_sensor = None"
  using dead_sensor_never_answers by (intro enroll_finger_spins) simp_all

lemma dead_sensor_stuck:
  "available dead_sensor \<and> waits_forever OK dead_sensor (length (trace dead_sensor))"
  by (simp add: dead_sensor_def scripted_def waits_forever_def OK_def NOFINGER_def)

lemma held_sensor_stuck:
  "available held_sensor
 \<and> wait_ends OK held_sensor (length (trace held_sensor)) 0 (Status OK)
 \<and> device held_sensor (Suc 0) (Image_2_tz 1) = Status OK
 \<and> waits_forever NOFINGER held_sensor (0 + 2)"
  by (simp add: held_sensor_def wait_ends_def waits_forever_def OK_def NOFINGER_def)

lemma lifted_sensor_stuck:
  "available lifted_sensor
 \<and> wait_ends OK lifted_sensor (length (trace lifted_sensor)) 0 (Status OK)
 \<and> device lifted_sensor (Suc 0) (Image_2_tz 1) = Status OK
 \<and> wait_ends NOFINGER lifted_sensor (0 + 2) 2 (Status NOFINGER)
 \<and> waits_forever OK lifted_sensor (Suc 2)"
  by (simp add: lifted_sensor_def scripted_def wait_ends_def waits_forever_def
                OK_def NOFINGER_def)

text \<open>
  C3, amended. None of the three waits of enroll_finger has a timeout. On an available
  service the run does not return when the first wait never sees a finger, nor when
  the first capture and its conversion succeed and the finger is never lifted, nor when
  the finger is lifted and never placed again (get_image not raising in the wait that
  lasts). These are the only runs that do not return: in every other case enroll_finger
  returns, and so it does on a device whose get_image will always answer OK again and
  NOFINGER again, however late.
\<close>

theorem enroll_finger_waits_unbounded:
  "(available fs \<and> waits_forever OK fs (length (trace fs))
      \<longrightarrow> enroll_finger location_id fs = None)
 \<and> (available fs \<and> wait_ends OK fs (length (trace fs)) j (Status OK)
      \<and> device fs (Suc j) (Image_2_tz 1) = Status OK
      \<and> waits_forever NOFINGER fs (j + 2)
      \<longrightarrow> enroll_finger location_id fs = None)
 \<and> (available fs \<and> wait_ends OK fs (length (trace fs)) j (Status OK)
      \<and> device fs (Suc j) (Image_2_tz 1) = Status OK
      \<and> wait_ends NOFINGER fs (j + 2) m (Status NOFINGER)
      \<and> waits_forever OK fs (Suc m)
      \<longrightarrow> enroll_finger location_id fs = None)
 \<and> (enroll_finger location_id fs = None \<longleftrightarrow> available fs \<and> stuck fs)
 \<and> (keeps_changing fs \<longrightarrow> (\<exists>r. enroll_finger location_id fs = Some r))"
proof -
  have iff: "enroll_finger location_id fs = None \<longleftrightarrow> available fs \<and> stuck fs"
    using enroll_finger_None_stuck [of location_id fs] enroll_finger_stuck [of fs location_id]
    by blast
  have a: "stuck fs" if "waits_forever OK fs (length (trace fs))"
    using that by (simp add: stuck_def)
  have b: "stuck fs" if "wait_ends OK fs (length (trace fs)) j (Status OK)"
    "device fs (Suc j) (Image_2_tz 1) = Status OK" "waits_forever NOFINGER fs (j + 2)"
    unfolding stuck_def using that by blast
  have c: "stuck fs" if "wait_ends OK fs (length (trace fs)) j (Status OK)"
    "device fs (Suc j) (Image_2_tz 1) = Status OK"
    "wait_ends NOFINGER fs (j + 2) m (Status NOFINGER)" "waits_forever OK fs (Suc m)"
    unfolding stuck_def using that by blast
  from iff a b c enroll_finger_returns [of fs location_id] show ?thesis
    by blast
qed

theorem enroll_finger_waits_unbounded_witness:
  "enroll_finger 2 dead_sensor = None
 \<and> enroll_finger 1 held_sensor = None
 \<and> enroll_finger 1 lifted_sensor = None
 \<and> (\<exists>r. enroll_finger 1 tapping_sensor = Some r)"
proof -
  from enroll_finger_waits_unbounded [where fs = dead_sensor and location_id = 2]
    dead_sensor_stuck
  have "enroll_finger 2 dead_sensor = None" by blast
  moreover
  from enroll_finger_waits_unbounded [where fs = held_sensor and location_id = 1 and j = 0]
    held_sensor_stuck
  have "enroll_finger 1 held_sensor = None" by blast
  moreover
  from enroll_finger_waits_unbounded
    [where fs = lifted_sensor and location_id = 1 and j = 0 and m = 2] lifted_sensor_stuck
  have "enroll_finger 1 lifted_sensor = None" by blast
  moreover
  from enroll_finger_waits_unbounded [where fs = tapping_sensor and location_id = 1]
    tapping_sensor_keeps_changing
  have "\<exists>r. enroll_finger 1 tapping_sensor = Some r" by blast
  ultimately show ?thesis by blast
qed








section \<open>The enrollment worker\<close>

lemma binds_callback_status: "\<not> binds enroll_finger_params 2 [''callback_status'']"
  by (simp add: binds_def enroll_finger_params_def)

lemma call_enroll_finger_raises:
  "call_enroll_finger slot [''callback_status''] fs = Some (Inl TypeError, fs)"
  by (simp add: call_enroll_finger_def binds_callback_status)

lemma worker_found_slot:
  assumes "finger_service k = Some fs" and "find_empty_slot fs = (Inr (Some slot), fs1)"
  shows "worker user_name k
         = Some ((emit [Printed TypeError] (k\<lparr>finger_service := Some fs1\<rparr>))
                   \<lparr>is_enrolling_finger := False\<rparr>)"
  using assms by (simp add: worker_def call_enroll_finger_raises)

text \<open>
  C4. When the worker of enroll_finger_ui has found a free slot, its call of
  enroll_finger with the keyword callback_status raises TypeError before the body of
  enroll_finger runs. The worker returns: the exception is printed, the database is
  the one it started with, the flag is_enrolling_finger is False, and the sensor has
  received the calls of the slot scan and no other.
\<close>

theorem worker_enroll_call_raises:
  assumes "finger_service k = Some fs" and "fst (find_empty_slot fs) = Inr (Some slot)"
  shows "call_enroll_finger slot [''callback_status''] (snd (find_empty_slot fs))
           = Some (Inl TypeError, snd (find_empty_slot fs))
       \<and> (\<exists>k'. worker user_name k = Some k'
              \<and> events k' = events k @ [Printed TypeError]
              \<and> db_file k' = db_file k
              \<and> \<not> is_enrolling_finger k'
              \<and> finger_service k' = Some (snd (find_empty_slot fs)))"
proof -
  from assms(2) have "find_empty_slot fs = (Inr (Some slot), snd (find_empty_slot fs))"
    by (metis prod.collapse)
  from worker_found_slot [OF assms(1) this, of user_name] show ?thesis
    by (simp add: call_enroll_finger_raises emit_def)
qed

theorem worker_enroll_call_raises_witness:
  "\<exists>k'. worker ''Joao'' ((bench (scripted (replicate 2 0)))\<lparr>is_enrolling_finger := True\<rparr>)
          = Some k'
       \<and> events k' = [Printed TypeError]
       \<and> fingerprints (db_file k') = Some []
       \<and> \<not> is_enrolling_finger k'
       \<and> map_option trace (finger_service k') = Some [Load_model 1, Load_model 2, Load_model 3]"
proof -
  let ?k = "(bench (scripted (replicate 2 0)))\<lparr>is_enrolling_finger := True\<rparr>"
  have s: "finger_service ?k = Some (scripted (replicate 2 0))"
    by (simp add: bench_def)
  have f: "fst (find_empty_slot (scripted (replicate 2 0))) = Inr (Some 3)"
    by code_simp
  have t: "trace (snd (find_empty_slot (scripted (replicate 2 0))))
           = [Load_model 1, Load_model 2, Load_model 3]"
    by code_simp
  have e: "events ?k = []" and d: "fingerprints (db_file ?k) = Some []"
    by (simp_all add: bench_def init_db_def new_file_def create_table_if_not_exists_def
                      Let_def insert_admin_def)
  from worker_enroll_call_raises [OF s f, of "''Joao''"] t e d show ?thesis
    by auto
qed

section \<open>The solenoid\<close>

lemma count_update:
  "i < length xs \<Longrightarrow>
   length (filter P (xs[i := y])) + (if P (xs ! i) then 1 else 0)
   = length (filter P xs) + (if P y then 1 else 0)"
proof (induction xs arbitrary: i)
  case Nil
  then show ?case by simp
next
  case (Cons x xs)
  show ?case
  proof (cases i)
    case 0
    then show ?thesis by simp
  next
    case (Suc j)
    with Cons.prems have "j < length xs" by simp
    from Cons.IH [OF this] Suc show ?thesis by simp
  qed
qed

lemma locker_step_writes:
  assumes "gpio_works k" and "locker_step pc k = (pc', k')"
  shows "gpio_works k'"
    and "writes HIGH k' + (if pc \<noteq> L_assert then 1 else 0)
         = writes HIGH k + (if pc' \<noteq> L_assert then 1 else 0)"
    and "writes LOW k' + (if pc = L_done then 1 else 0)
         = writes LOW k + (if pc' = L_done then 1 else 0)"
  using assms
  by (cases pc; auto simp: locker_step_def gpio_works_def gpio_output_def writes_def)+

lemma locker_turn_writes:
  assumes "gpio_works (snd st)"
  shows "gpio_works (snd (locker_turn i st))
       \<and> writes HIGH (snd (locker_turn i st)) + started (fst st)
         = writes HIGH (snd st) + started (fst (locker_turn i st))
       \<and> writes LOW (snd (locker_turn i st)) + finished (fst st)
         = writes LOW (snd st) + finished (fst (locker_turn i st))"
proof (cases "i < length (fst st)")
  case False
  with assms show ?thesis by (simp add: locker_turn_def)
next
  case True
  obtain pc' k' where s: "locker_step (fst st ! i) (snd st) = (pc', k')"
    by fastforce
  have t: "locker_turn i st = ((fst st)[i := pc'], k')"
    using True s by (simp add: locker_turn_def)
  note w = locker_step_writes [OF assms s]
  have h: "length (filter (\<lambda>pc. pc \<noteq> L_assert) ((fst st)[i := pc']))
             + (if fst st ! i \<noteq> L_assert then 1 else 0)
           = length (filter (\<lambda>pc. pc \<noteq> L_assert) (fst st))
             + (if pc' \<noteq> L_assert then 1 else 0)"
    using True by (rule count_update)
  have l: "length (filter (\<lambda>pc. pc = L_done) ((fst st)[i := pc']))
             + (if fst st ! i = L_done then 1 else 0)
           = length (filter (\<lambda>pc. pc = L_done) (fst st))
             + (if pc' = L_done then 1 else 0)"
    using True by (rule count_update)
  from w h l show ?thesis
    unfolding t started_def finished_def by (simp split: if_splits)
qed

lemma locker_run_writes:
  "gpio_works (snd st) \<Longrightarrow>
     writes HIGH (snd (locker_run sched st)) + started (fst st)
       = writes HIGH (snd st) + started (fst (locker_run sched st))
   \<and> writes LOW (snd (locker_run sched st)) + finished (fst st)
       = writes LOW (snd st) + finished (fst (locker_run sched st))"
proof (induction sched arbitrary: st)
  case Nil
  then show ?case by simp
next
  case (Cons i sched)
  from locker_turn_writes [OF Cons.prems, of i]
  have g: "gpio_works (snd (locker_turn i st))"
    and h: "writes HIGH (snd (locker_turn i st)) + started (fst st)
         = writes HIGH (snd st) + started (fst (locker_turn i st))"
    and l: "writes LOW (snd (locker_turn i st)) + finished (fst st)
         = writes LOW (snd st) + finished (fst (locker_turn i st))"
    by simp_all
  from Cons.IH [OF g] h l show ?case by simp
qed

lemma fold_request:
  "fold request srcs (pcs, k) = (pcs @ replicate (length srcs) L_assert, k)"
  by (induction srcs arbitrary: pcs) (simp_all add: request_def replicate_app_Cons_same)

lemma requests_fresh: "requests srcs k = (replicate (length srcs) L_assert, k)"
  by (simp add: requests_def fold_request)

text \<open>A request thread that runs alone does what open_locker does.\<close>

lemma open_locker_as_thread:
  "locker_run [0, 0] (requests [src] k) = ([L_done], open_locker k)"
  by (simp add: requests_fresh locker_turn_def locker_step_def open_locker_def
                gpio_output_def emit_def)

lemma locker_step_works:
  assumes "gpio_works k"
  shows "locker_step L_assert k
         = (L_release, k\<lparr>gpio_calls := gpio_calls k + 1, pin_log := pin_log k @ [HIGH]\<rparr>)"
    and "locker_step L_release k
         = (L_done, k\<lparr>gpio_calls := gpio_calls k + 1, pin_log := pin_log k @ [LOW]\<rparr>)"
    and "locker_step L_done k = (L_done, k)"
  using assms by (simp_all add: locker_step_def gpio_works_def gpio_output_def)

lemma locker_step_next:
  assumes "gpio_works k"
  shows "fst (locker_step pc k) = next_pc pc" and "gpio_works (snd (locker_step pc k))"
  using locker_step_works [OF assms] assms
  by (cases pc; simp add: gpio_works_def)+

lemma locker_turn_pcs:
  assumes "gpio_works (snd st)"
  shows "gpio_works (snd (locker_turn i st))"
    and "length (fst (locker_turn i st)) = length (fst st)"
    and "j < length (fst st) \<Longrightarrow>
         fst (locker_turn i st) ! j = (if j = i then next_pc (fst st ! j) else fst st ! j)"
  using locker_step_next [OF assms, of "fst st ! i"] assms
  by (auto simp: locker_turn_def split_beta)

lemma next_pc_funpow_commute: "next_pc ((next_pc ^^ n) pc) = (next_pc ^^ n) (next_pc pc)"
  by (induction n) simp_all

lemma locker_run_pcs:
  assumes "gpio_works (snd st)" and "j < length (fst st)"
  shows "fst (locker_run sched st) ! j = (next_pc ^^ count_list sched j) (fst st ! j)"
  using assms
proof (induction sched arbitrary: st)
  case Nil
  then show ?case by simp
next
  case (Cons i sched)
  have g: "gpio_works (snd (locker_turn i st))"
    using Cons.prems(1) by (rule locker_turn_pcs(1))
  have l: "length (fst (locker_turn i st)) = length (fst st)"
    using Cons.prems(1) by (rule locker_turn_pcs(2))
  have e: "fst (locker_turn i st) ! j = (if j = i then next_pc (fst st ! j) else fst st ! j)"
    using Cons.prems by (rule locker_turn_pcs(3))
  have j: "j < length (fst (locker_turn i st))"
    using l Cons.prems(2) by simp
  from Cons.IH [OF g j] e show ?case
    by (simp add: next_pc_funpow_commute)
qed

lemma locker_run_length:
  "length (fst (locker_run sched st)) = length (fst st)"
  by (induction sched arbitrary: st) (simp_all add: locker_turn_def split_beta)

lemma funpow_next_pc: "(next_pc ^^ n) L_assert = after_turns n"
proof (cases n)
  case 0
  then show ?thesis by (simp add: after_turns_def)
next
  case (Suc m)
  have "(next_pc ^^ m) L_release = (if m = 0 then L_release else L_done)"
  proof (cases m)
    case 0
    then show ?thesis by simp
  next
    case (Suc l)
    have "(next_pc ^^ l) L_done = L_done" by (induction l) simp_all
    with Suc show ?thesis by (simp add: funpow_swap1)
  qed
  with Suc show ?thesis by (simp add: after_turns_def funpow_swap1)
qed

lemma requests_pcs:
  assumes "gpio_works k" and "j < length srcs"
  shows "fst (locker_run sched (requests srcs k)) ! j = after_turns (count_list sched j)"
  using locker_run_pcs [of "requests srcs k" j sched] assms
  by (simp add: requests_fresh funpow_next_pc)

lemma all_done:
  assumes "gpio_works k" and "\<forall>j<length srcs. 2 \<le> count_list sched j"
  shows "fst (locker_run sched (requests srcs k)) = replicate (length srcs) L_done"
proof (rule nth_equalityI)
  show "length (fst (locker_run sched (requests srcs k))) = length (replicate (length srcs) L_done)"
    by (simp add: locker_run_length requests_fresh)
next
  fix j assume "j < length (fst (locker_run sched (requests srcs k)))"
  then have j: "j < length srcs" by (simp add: locker_run_length requests_fresh)
  with assms(2) have "2 \<le> count_list sched j" by simp
  then have "after_turns (count_list sched j) = L_done" by (simp add: after_turns_def)
  with requests_pcs [OF assms(1) j, of sched] j
  show "fst (locker_run sched (requests srcs k)) ! j = replicate (length srcs) L_done ! j"
    by simp
qed

text \<open>
  C2, as stated: of two requests of which the second arrives while the lock is open,
  only the first drives the pin. A fingerprint request and a face request on a working
  pin, the second starting after the HIGH of the first and before its LOW: the second
  request writes HIGH and LOW as well.
\<close>

theorem second_request_not_dropped:
  "pin_log (snd (locker_run [0, 1, 0, 1] (requests [Fingerprint, Face] (bench dead_sensor))))
   = [HIGH, HIGH, LOW, LOW]"
  by code_simp

text \<open>
  C2, amended. The kiosk keeps no lock position, no time of the last activation and no
  cooldown. With a working pin, the first turn of a request thread appends HIGH to the
  pin log and its second turn appends LOW, whatever the other threads have done. In
  every interleaving a request that has had n turns stands where n turns lead, each
  started request has written HIGH once and each finished request LOW once; when every
  request has had its two turns, as many HIGH and as many LOW have been written as
  there were requests. No request is dropped, whatever its source and however soon
  after another it arrives.
\<close>

theorem every_request_writes_pin:
  assumes "gpio_works k"
  shows "locker_step L_assert k
           = (L_release, k\<lparr>gpio_calls := gpio_calls k + 1, pin_log := pin_log k @ [HIGH]\<rparr>)
       \<and> locker_step L_release k
           = (L_done, k\<lparr>gpio_calls := gpio_calls k + 1, pin_log := pin_log k @ [LOW]\<rparr>)
       \<and> (\<forall>j<length srcs. fst (locker_run sched (requests srcs k)) ! j
                               = after_turns (count_list sched j))
       \<and> writes HIGH (snd (locker_run sched (requests srcs k)))
           = writes HIGH k + started (fst (locker_run sched (requests srcs k)))
       \<and> writes LOW (snd (locker_run sched (requests srcs k)))
           = writes LOW k + finished (fst (locker_run sched (requests srcs k)))
       \<and> ((\<forall>j<length srcs. 2 \<le> count_list sched j) \<longrightarrow>
             writes HIGH (snd (locker_run sched (requests srcs k))) = writes HIGH k + length srcs
           \<and> writes LOW (snd (locker_run sched (requests srcs k))) = writes LOW k + length srcs)"
proof -
  have g: "gpio_works (snd (requests srcs k))"
    using assms by (simp add: requests_fresh)
  from locker_run_writes [OF g, of sched]
  have w: "writes HIGH (snd (locker_run sched (requests srcs k)))
           = writes HIGH k + started (fst (locker_run sched (requests srcs k)))"
    "writes LOW (snd (locker_run sched (requests srcs k)))
           = writes LOW k + finished (fst (locker_run sched (requests srcs k)))"
    by (simp_all add: requests_fresh started_def finished_def)
  have d: "writes HIGH (snd (locker_run sched (requests srcs k))) = writes HIGH k + length srcs
           \<and> writes LOW (snd (locker_run sched (requests srcs k))) = writes LOW k + length srcs"
    if "\<forall>j<length srcs. 2 \<le> count_list sched j"
    using w all_done [OF assms that] by (simp add: started_def finished_def)
  from locker_step_works(1,2) [OF assms] requests_pcs [OF assms] w d show ?thesis
    by blast
qed

theorem every_request_writes_pin_witness:
  "writes HIGH (snd (locker_run [0, 1, 0, 1] (requests [Fingerprint, Face] (bench dead_sensor))))
     = 2
 \<and> writes LOW (snd (locker_run [0, 1, 0, 1] (requests [Fingerprint, Face] (bench dead_sensor))))
     = 2
 \<and> fst (locker_run [0, 1, 0] (requests [Fingerprint, Face] (bench dead_sensor)))
     = [L_done, L_release]"
proof -
  have g: "gpio_works (bench dead_sensor)"
    by (simp add: gpio_works_def bench_def)
  have w: "writes HIGH (bench dead_sensor) = 0" "writes LOW (bench dead_sensor) = 0"
    by (simp_all add: writes_def bench_def)
  have turns: "\<forall>j<length [Fingerprint, Face]. 2 \<le> count_list [0, 1, 0, 1] j"
    by (simp add: less_Suc_eq)
  have len: "length (fst (locker_run [0, 1, 0] (requests [Fingerprint, Face] (bench dead_sensor))))
             = 2"
    using locker_run_length [of "[0, 1, 0]" "requests [Fingerprint, Face] (bench dead_sensor)"]
    by (simp add: requests_fresh)
  from every_request_writes_pin
    [OF g, where srcs = "[Fingerprint, Face]" and sched = "[0, 1, 0]"]
  have "\<forall>j<2. fst (locker_run [0, 1, 0] (requests [Fingerprint, Face] (bench dead_sensor))) ! j
               = after_turns (count_list [0, 1, 0] j)"
    by simp
  then have "fst (locker_run [0, 1, 0] (requests [Fingerprint, Face] (bench dead_sensor))) ! 0
               = L_done"
    and "fst (locker_run [0, 1, 0] (requests [Fingerprint, Face] (bench dead_sensor))) ! 1
               = L_release"
    by (simp_all add: after_turns_def)
  with len have pcs: "fst (locker_run [0, 1, 0] (requests [Fingerprint, Face] (bench dead_sensor)))
             = [L_done, L_release]"
    by (auto simp: list_eq_iff_nth_eq less_Suc_eq numeral_2_eq_2)
  from every_request_writes_pin
    [OF g, where srcs = "[Fingerprint, Face]" and sched = "[0, 1, 0, 1]"] w turns pcs
  show ?thesis by simp
qed

section \<open>Poller and enrollment on one sensor\<close>

text \<open>
  Each thread, run alone, does what the function it was cut from does: the poller one
  turn of finger_listen_loop, the enrollment enroll_finger_ui with its worker.
\<close>

lemma poller_turn:
  "\<exists>n\<le>7. poller_alone n (P_ready, k) = (P_running, listen_iteration k)"
proof -
  consider (off) "\<not> biometrics_ready k"
    | (busy) "biometrics_ready k" "is_enrolling_finger k"
    | (none) "biometrics_ready k" "\<not> is_enrolling_finger k" "finger_service k = None"
    | (some) fs where "biometrics_ready k" "\<not> is_enrolling_finger k" "finger_service k = Some fs"
    by (cases "finger_service k") auto
  then show ?thesis
  proof cases
    case off
    then have "poller_alone 1 (P_ready, k) = (P_running, listen_iteration k)"
      by (simp add: poller_step_def listen_iteration_def)
    then show ?thesis by (intro exI [of _ 1]) simp
  next
    case busy
    then have "poller_alone 2 (P_ready, k) = (P_running, listen_iteration k)"
      by (simp add: numeral_2_eq_2 poller_step_def listen_iteration_def)
    then show ?thesis by (intro exI [of _ 2]) simp
  next
    case none
    then have "poller_alone 3 (P_ready, k) = (P_running, listen_iteration k)"
      by (simp add: numeral_3_eq_3 poller_step_def listen_iteration_def)
    then show ?thesis by (intro exI [of _ 3]) simp
  next
    case some
    note pre = some
    show ?thesis
    proof (cases "available fs")
      case False
      with pre have "poller_alone 3 (P_ready, k) = (P_running, listen_iteration k)"
        by (simp add: numeral_3_eq_3 poller_step_def listen_iteration_def check_finger_def)
      then show ?thesis by (intro exI [of _ 3]) simp
    next
      case True
      let ?r1 = "device fs (length (trace fs)) Get_image"
      let ?r2 = "device fs (Suc (length (trace fs))) (Image_2_tz 1)"
      let ?r3 = "device fs (Suc (Suc (length (trace fs)))) Finger_search"
      consider (a) "?r1 \<noteq> Status OK"
        | (b) "?r1 = Status OK" "?r2 \<noteq> Status OK"
        | (c) "?r1 = Status OK" "?r2 = Status OK" "?r3 \<noteq> Status OK"
        | (d) "?r1 = Status OK" "?r2 = Status OK" "?r3 = Status OK"
        by blast
      then show ?thesis
      proof cases
        case a
        with pre True have "poller_alone 4 (P_ready, k) = (P_running, listen_iteration k)"
          by (cases ?r1)
             (simp_all add: numeral_eq_Suc poller_step_def poller_call_def
                listen_iteration_def check_finger_def sensor_call_def emit_def)
        then show ?thesis by (intro exI [of _ 4]) simp
      next
        case b
        with pre True have "poller_alone 5 (P_ready, k) = (P_running, listen_iteration k)"
          by (cases ?r2)
             (simp_all add: numeral_eq_Suc poller_step_def poller_call_def
                listen_iteration_def check_finger_def sensor_call_def emit_def)
        then show ?thesis by (intro exI [of _ 5]) simp
      next
        case c
        with pre True have "poller_alone 6 (P_ready, k) = (P_running, listen_iteration k)"
          by (cases ?r3)
             (simp_all add: numeral_eq_Suc poller_step_def poller_call_def
                listen_iteration_def check_finger_def sensor_call_def finger_search_def
                emit_def)
        then show ?thesis by (intro exI [of _ 6]) simp
      next
        case d
        with pre True have "poller_alone 7 (P_ready, k) = (P_running, listen_iteration k)"
          by (simp add: numeral_eq_Suc poller_step_def poller_call_def
                listen_iteration_def check_finger_def sensor_call_def finger_search_def
                emit_def split: sum.splits)
        then show ?thesis by (intro exI [of _ 7]) simp
      qed
    qed
  qed
qed

lemma enroll_alone_add:
  "enroll_alone (n + m) u st = enroll_alone m u (enroll_alone n u st)"
  by (induction n arbitrary: st) simp_all

lemma scan_as_steps:
  assumes "finger_service k = Some fs" "1 \<le> i" "i \<le> 128"
  shows "\<exists>n. enroll_alone n u (E_load_model i, k)
             = (E_finally, scan_outcome k (scan_slots [i..127] fs))"
  using assms
proof (induction "nat (128 - i)" arbitrary: i k fs)
  case 0
  then have i: "i = 128" by simp
  have "enroll_alone 1 u (E_load_model i, k)
        = (E_finally, scan_outcome k (scan_slots [i..127] fs))"
    using i "0.prems"(1) by (simp add: enroll_step_def scan_outcome_def emit_def)
  then show ?case by blast
next
  case (Suc m)
  then have lt: "i < 128" by simp
  then have up: "[i..127] = i # [i + 1..127]"
    by (simp add: upto_rec1)
  obtain r fs' where c: "sensor_call (Load_model i) fs = (r, fs')"
    by fastforce
  show ?case
  proof (cases r)
    case Raises
    have "enroll_alone 1 u (E_load_model i, k)
          = (E_finally, scan_outcome k (scan_slots [i..127] fs))"
      using lt Suc.prems(1) c Raises by (simp add: enroll_step_def scan_outcome_def up)
    then show ?thesis by blast
  next
    case (Status code)
    show ?thesis
    proof (cases "code = OK")
      case False
      have "enroll_alone 2 u (E_load_model i, k)
            = (E_finally, scan_outcome k (scan_slots [i..127] fs))"
        using lt Suc.prems(1) c Status False
        by (simp add: numeral_2_eq_2 enroll_step_def scan_outcome_def up
                      call_enroll_finger_raises)
      then show ?thesis by blast
    next
      case True
      let ?k = "k\<lparr>finger_service := Some fs'\<rparr>"
      have one: "enroll_step u (E_load_model i) k = (E_load_model (i + 1), ?k)"
        using lt Suc.prems(1) c Status True by (simp add: enroll_step_def)
      have "\<exists>n. enroll_alone n u (E_load_model (i + 1), ?k)
                 = (E_finally, scan_outcome ?k (scan_slots [i + 1..127] fs'))"
      proof (rule Suc.hyps(1))
        show "m = nat (128 - (i + 1))" using Suc.hyps(2) by simp
        show "finger_service ?k = Some fs'" by simp
        show "1 \<le> i + 1" using Suc.prems(2) by simp
        show "i + 1 \<le> 128" using lt by simp
      qed
      then obtain n where n: "enroll_alone n u (E_load_model (i + 1), ?k)
                 = (E_finally, scan_outcome ?k (scan_slots [i + 1..127] fs'))"
        by blast
      have same: "scan_outcome ?k res = scan_outcome k res" for res
        by (simp add: scan_outcome_def split: prod.splits sum.splits option.splits)
      have "enroll_alone (Suc n) u (E_load_model i, k)
            = (E_finally, scan_outcome k (scan_slots [i..127] fs))"
        using n one c Status True by (simp add: up same)
      then show ?thesis by blast
    qed
  qed
qed

lemma worker_as_scan:
  assumes "finger_service k = Some fs"
  shows "worker u k = Some ((scan_outcome k (find_empty_slot fs))\<lparr>is_enrolling_finger := False\<rparr>)"
  using assms
  by (simp add: worker_def scan_outcome_def call_enroll_finger_raises
           split: prod.splits sum.splits option.splits)

lemma enrollment_alone:
  "\<exists>n k'. enroll_alone n (strip (name_entry k)) (E_button, k) = (E_done, k')
         \<and> enroll_finger_ui k = Some k'"
proof (cases "admin_authenticated k \<and> biometrics_ready k \<and> finger_service k \<noteq> None
              \<and> strip (name_entry k) \<noteq> []")
  case False
  then have "\<exists>k'. enroll_alone 1 (strip (name_entry k)) (E_button, k) = (E_done, k')
         \<and> enroll_finger_ui k = Some k'"
    by (auto simp: enroll_step_def enroll_finger_ui_def)
  then show ?thesis by blast
next
  case True
  then obtain fs where fs: "finger_service k = Some fs" by auto
  let ?u = "strip (name_entry k)"
  let ?k = "k\<lparr>is_enrolling_finger := True\<rparr>"
  have fs1: "finger_service ?k = Some fs" using fs by simp
  have button: "enroll_step ?u E_button k = (E_available, ?k)"
    using True by (simp add: enroll_step_def)
  have ui: "enroll_finger_ui k
            = Some ((scan_outcome ?k (find_empty_slot fs))\<lparr>is_enrolling_finger := False\<rparr>)"
    using True fs worker_as_scan [OF fs1, of ?u] by (simp add: enroll_finger_ui_def)
  have "\<exists>n. enroll_alone n ?u (E_available, ?k)
             = (E_finally, scan_outcome ?k (find_empty_slot fs))"
  proof (cases "available fs")
    case False
    have "enroll_alone 1 ?u (E_available, ?k)
             = (E_finally, scan_outcome ?k (find_empty_slot fs))"
      using False fs by (simp add: enroll_step_def find_empty_slot_def scan_outcome_def emit_def)
    then show ?thesis by blast
  next
    case av: True
    from scan_as_steps [OF fs1, of 1 ?u] obtain n where
      "enroll_alone n ?u (E_load_model 1, ?k)
         = (E_finally, scan_outcome ?k (scan_slots [1..127] fs))"
      by auto
    then have "enroll_alone (Suc n) ?u (E_available, ?k)
             = (E_finally, scan_outcome ?k (find_empty_slot fs))"
      using av fs by (simp add: enroll_step_def find_empty_slot_def)
    then show ?thesis by blast
  qed
  then obtain n where n: "enroll_alone n ?u (E_available, ?k)
             = (E_finally, scan_outcome ?k (find_empty_slot fs))"
    by blast
  have "enroll_alone (Suc n + 1) ?u (E_button, k)
        = (E_done, (scan_outcome ?k (find_empty_slot fs))\<lparr>is_enrolling_finger := False\<rparr>)"
    unfolding enroll_alone_add using n button by (simp add: enroll_step_def)
  with ui show ?thesis by blast
qed

lemma run_poller_alone:
  "(poller (run (replicate n Poller) s), shared (run (replicate n Poller) s))
   = poller_alone n (poller s, shared s)"
  by (induction n arbitrary: s) (simp_all add: step_def split_beta)

lemma enroll_step_name:
  "name_entry (snd (enroll_step u pc k)) = name_entry k"
  by (cases pc)
     (auto simp: enroll_step_def emit_def split: option.splits prod.splits sum.splits reply.splits)

lemma run_enroll_alone:
  "(enrollment (run (replicate n Enrollment) s), shared (run (replicate n Enrollment) s))
   = enroll_alone n (strip (name_entry (shared s))) (enrollment s, shared s)"
  by (induction n arbitrary: s) (simp_all add: step_def split_beta enroll_step_name)

text \<open>
  C1. The claim: in every interleaving the poller has finished its device calls before
  the first device call of an enrollment. The poller tests is_enrolling_finger and
  then makes the three device calls of check_finger without testing it again, and the
  enrollment sets the flag without waiting for the poller. In the schedule
  \<open>race_schedule\<close> the poller takes an image, the worker loads slot 1, and the poller
  converts its image while the flag is set.
\<close>

theorem poller_enrollment_race:
  "calls (run race_schedule race_start)
     = [(Poller, Get_image, False), (Enrollment, Load_model 1, True),
        (Poller, Image_2_tz 1, True)]
 \<and> interleaved (calls (run race_schedule race_start))"
  by code_simp


end
